theory Spec2Isabelle
  imports Complex_Main
begin

section \<open>Errors and sequencing\<close>

text \<open>
  The module \<^verbatim>\<open>djalgorithm.py\<close> raises no exception of its own: every failure is an
  exception of a library call. Two kinds can occur: numpy's \<^verbatim>\<open>ValueError\<close> (an empty
  or out-of-bounds range handed to \<^verbatim>\<open>randint\<close>, a malformed format specification) and the circuit
  library's \<^verbatim>\<open>CircuitError\<close> (a negative register size, a wire index out of range,
  duplicate or mismatched arguments). A raised exception is the value \<open>Inl e\<close>.
\<close>

datatype error = ValueError | CircuitError

definition bind_err :: "error + 'a \<Rightarrow> ('a \<Rightarrow> error + 'b) \<Rightarrow> error + 'b" where
  "bind_err m f = (case m of Inl e \<Rightarrow> Inl e | Inr v \<Rightarrow> f v)"

text \<open>A \<^verbatim>\<open>for\<close> loop whose body may raise: the first exception ends the loop.\<close>

fun for_each :: "('i \<Rightarrow> 's \<Rightarrow> error + 's) \<Rightarrow> 'i list \<Rightarrow> 's \<Rightarrow> error + 's" where
  "for_each body [] s = Inr s"
| "for_each body (i # rest) s = bind_err (body i s) (for_each body rest)"

fun map_err :: "('a \<Rightarrow> error + 'b) \<Rightarrow> 'a list \<Rightarrow> error + 'b list" where
  "map_err f [] = Inr []"
| "map_err f (a # rest) =
     bind_err (f a) (\<lambda>b. bind_err (map_err f rest) (\<lambda>bs. Inr (b # bs)))"

text \<open>Python's \<^verbatim>\<open>range(k)\<close> for an integer \<open>k\<close>: empty when \<open>k \<le> 0\<close>.\<close>

definition py_range :: "int \<Rightarrow> int list" where
  "py_range k = map int [0..<nat k]"

section \<open>Circuits, gates and instructions\<close>

text \<open>
  The primitive operations the module places on wires: \<^verbatim>\<open>x\<close>, \<^verbatim>\<open>h\<close>, \<^verbatim>\<open>cx\<close>
  (control, target), \<^verbatim>\<open>barrier\<close> (over the listed wires) and \<^verbatim>\<open>measure\<close>
  (wire, classical bit).
\<close>

datatype gate =
    XGate nat
  | HGate nat
  | CXGate nat nat
  | Barrier "nat list"
  | Measure nat nat

text \<open>
  A \<^verbatim>\<open>QuantumCircuit\<close> and an \<^verbatim>\<open>Instruction\<close> both carry a name, a number of
  wires, a number of classical bits and an ordered list of operations; \<^verbatim>\<open>simulate\<close> and
  \<^verbatim>\<open>_construct_the_circuit\<close> read \<^verbatim>\<open>num_qubits\<close> and \<^verbatim>\<open>num_clbits\<close> of either.
  An instruction's definition is a list of primitive gates; a circuit's data may also hold
  a whole instruction placed on chosen wires and classical bits.
\<close>

record 'a quantum_circuit =
  name :: string
  num_qubits :: nat
  num_clbits :: nat
  data :: "'a list"

type_synonym Instruction = "gate quantum_circuit"

datatype operation =
    Gate gate
  | Block Instruction "nat list" "nat list"

type_synonym QuantumCircuit = "operation quantum_circuit"

text \<open>\<^verbatim>\<open>QuantumCircuit(nq, nc)\<close>: a register size below zero raises.\<close>

definition QuantumCircuit :: "int \<Rightarrow> int \<Rightarrow> error + 'a quantum_circuit" where
  "QuantumCircuit nq nc =
     (if nq < 0 \<or> nc < 0 then Inl CircuitError
      else Inr \<lparr>name = ''circuit'', num_qubits = nat nq, num_clbits = nat nc, data = []\<rparr>)"

text \<open>
  A wire or classical-bit argument is a Python index into the circuit's list of wires:
  a negative index counts from the end, an index outside the list raises.
\<close>

definition py_index :: "nat \<Rightarrow> int \<Rightarrow> error + nat" where
  "py_index len i =
     (let j = (if i < 0 then int len + i else i)
      in if 0 \<le> j \<and> j < int len then Inr (nat j) else Inl CircuitError)"

definition add_op :: "'a \<Rightarrow> 'a quantum_circuit \<Rightarrow> 'a quantum_circuit" where
  "add_op p c = c\<lparr>data := data c @ [p]\<rparr>"

definition qc_x :: "int \<Rightarrow> QuantumCircuit \<Rightarrow> error + QuantumCircuit" where
  "qc_x qubit c =
     bind_err (py_index (num_qubits c) qubit) (\<lambda>q. Inr (add_op (Gate (XGate q)) c))"

definition qc_h :: "int \<Rightarrow> QuantumCircuit \<Rightarrow> error + QuantumCircuit" where
  "qc_h qubit c =
     bind_err (py_index (num_qubits c) qubit) (\<lambda>q. Inr (add_op (Gate (HGate q)) c))"

definition qc_cx :: "int \<Rightarrow> int \<Rightarrow> QuantumCircuit \<Rightarrow> error + QuantumCircuit" where
  "qc_cx control target c =
     bind_err (py_index (num_qubits c) control) (\<lambda>cq.
     bind_err (py_index (num_qubits c) target) (\<lambda>tq.
       if cq = tq then Inl CircuitError else Inr (add_op (Gate (CXGate cq tq)) c)))"

definition qc_barrier :: "QuantumCircuit \<Rightarrow> QuantumCircuit" where
  "qc_barrier c = add_op (Gate (Barrier [0..<num_qubits c])) c"

definition qc_measure :: "int \<Rightarrow> int \<Rightarrow> QuantumCircuit \<Rightarrow> error + QuantumCircuit" where
  "qc_measure qubit cbit c =
     bind_err (py_index (num_qubits c) qubit) (\<lambda>q.
     bind_err (py_index (num_clbits c) cbit) (\<lambda>b. Inr (add_op (Gate (Measure q b)) c)))"

text \<open>
  \<^verbatim>\<open>circuit.append(instruction, qargs, cargs)\<close>: the arguments are resolved as indices,
  their numbers must be the instruction's, and no wire or bit may be given twice.
\<close>

definition qc_append ::
  "Instruction \<Rightarrow> int list \<Rightarrow> int list \<Rightarrow> QuantumCircuit \<Rightarrow> error + QuantumCircuit" where
  "qc_append inst qargs cargs c =
     bind_err (map_err (py_index (num_qubits c)) qargs) (\<lambda>qs.
     bind_err (map_err (py_index (num_clbits c)) cargs) (\<lambda>cs.
       if length qs \<noteq> num_qubits inst \<or> length cs \<noteq> num_clbits inst
          \<or> \<not> distinct qs \<or> \<not> distinct cs
       then Inl CircuitError
       else Inr (add_op (Block inst qs cs) c)))"

text \<open>
  A gate of an instruction placed on wires \<open>qs\<close> and bits \<open>cs\<close> acts on wire \<open>qs ! q\<close>
  where the instruction says \<open>q\<close>.
\<close>

fun remap :: "nat list \<Rightarrow> nat list \<Rightarrow> gate \<Rightarrow> gate" where
  "remap qs cs (XGate q) = XGate (qs ! q)"
| "remap qs cs (HGate q) = HGate (qs ! q)"
| "remap qs cs (CXGate c t) = CXGate (qs ! c) (qs ! t)"
| "remap qs cs (Barrier ws) = Barrier (map ((!) qs) ws)"
| "remap qs cs (Measure q b) = Measure (qs ! q) (cs ! b)"

fun expand :: "operation \<Rightarrow> gate list" where
  "expand (Gate g) = [g]"
| "expand (Block inst qs cs) = map (remap qs cs) (data inst)"

definition decompose :: "QuantumCircuit \<Rightarrow> gate list" where
  "decompose c = concat (map expand (data c))"

text \<open>\<^verbatim>\<open>circuit.to_instruction()\<close>: the circuit as one instruction, with its gates.\<close>

definition to_instruction :: "QuantumCircuit \<Rightarrow> Instruction" where
  "to_instruction c =
     \<lparr>name = name c, num_qubits = num_qubits c, num_clbits = num_clbits c,
      data = decompose c\<rparr>"

section \<open>The random source and string formatting\<close>

text \<open>
  \<^verbatim>\<open>np.random.randint(low, high)\<close> returns an integer of the half-open range
  \<open>[low, high)\<close>. It draws in the library's default integer type, the 64-bit signed
  integers: it raises \<^verbatim>\<open>ValueError\<close> when \<open>low\<close> is below the least of them, when
  \<open>high - 1\<close> is above the greatest, and when the range is empty. (Where the default
  integer has 32 bits the limits are lower; the theorems that take the draw's result as
  a hypothesis hold there alike.) The generator's entropy is the argument \<open>pick\<close>: as
  \<open>pick\<close> runs over the naturals, the result runs over the whole range and nothing
  else.
\<close>

definition int64_min :: int where
  "int64_min = - (2 ^ 63)"

definition int64_max :: int where
  "int64_max = 2 ^ 63 - 1"

definition randint :: "int \<Rightarrow> int \<Rightarrow> nat \<Rightarrow> error + int" where
  "randint low high pick =
     (if low < int64_min then Inl ValueError
      else if int64_max < high - 1 then Inl ValueError
      else if low < high then Inr (low + int (pick mod nat (high - low)))
      else Inl ValueError)"

text \<open>
  \<^verbatim>\<open>2**inputs_count\<close>: for a negative exponent Python yields a float strictly between 0
  and 1, which \<^verbatim>\<open>randint\<close> truncates to 0.
\<close>

definition two_to_the :: "int \<Rightarrow> int" where
  "two_to_the k = (if 0 \<le> k then 2 ^ nat k else 0)"

text \<open>The binary digits of a natural number, most significant first.\<close>

fun bin :: "nat \<Rightarrow> string" where
  "bin m =
     (if m < 2 then [if m = 0 then CHR ''0'' else CHR ''1'']
      else bin (m div 2) @ [if even m then CHR ''0'' else CHR ''1''])"

text \<open>
  \<^verbatim>\<open>format(value, "0" + str(width) + "b")\<close>: binary digits after the sign, padded with
  zeros to at least \<open>width\<close> characters. A negative \<open>width\<close> makes the specification
  malformed.
\<close>

definition format_b :: "int \<Rightarrow> int \<Rightarrow> error + string" where
  "format_b v width =
     (if width < 0 then Inl ValueError
      else
        let digits = bin (nat \<bar>v\<bar>);
            sign = (if v < 0 then ''-'' else '''')
        in Inr (sign @ replicate (nat width - length sign - length digits) CHR ''0'' @ digits))"

section \<open>Oracle synthesis\<close>

text \<open>The body of the two loops that place \<^verbatim>\<open>x\<close> where the mask string has a one.\<close>

definition x_if_one :: "nat \<times> char \<Rightarrow> QuantumCircuit \<Rightarrow> error + QuantumCircuit" where
  "x_if_one p oracle =
     (case p of (index, qubit) \<Rightarrow>
        if qubit = CHR ''1'' then qc_x (int index) oracle else Inr oracle)"

definition cx_to :: "int \<Rightarrow> nat \<times> char \<Rightarrow> QuantumCircuit \<Rightarrow> error + QuantumCircuit" where
  "cx_to inputs_count p oracle =
     (case p of (index, qubit) \<Rightarrow> qc_cx (int index) inputs_count oracle)"

text \<open>\<^verbatim>\<open>give_a_balanced_oracle\<close> from its second statement on, for the number drawn.\<close>

definition balanced_oracle_for :: "int \<Rightarrow> int \<Rightarrow> error + Instruction" where
  "balanced_oracle_for inputs_count random_number =
     bind_err (format_b random_number inputs_count) (\<lambda>inputs.
     bind_err (QuantumCircuit (inputs_count + 1) inputs_count) (\<lambda>oracle.
     bind_err (for_each x_if_one (enumerate 0 (rev inputs)) oracle) (\<lambda>oracle.
     bind_err (for_each (cx_to inputs_count) (enumerate 0 inputs) oracle) (\<lambda>oracle.
     bind_err (for_each x_if_one (enumerate 0 (rev inputs)) oracle) (\<lambda>oracle.
       Inr ((to_instruction oracle)\<lparr>name := ''BalancedOracle''\<rparr>))))))"

definition give_a_balanced_oracle :: "int \<Rightarrow> nat \<Rightarrow> error + Instruction" where
  "give_a_balanced_oracle inputs_count pick =
     bind_err (randint 1 (two_to_the inputs_count) pick) (balanced_oracle_for inputs_count)"

definition give_a_constant_oracle :: "int \<Rightarrow> nat \<Rightarrow> error + Instruction" where
  "give_a_constant_oracle inputs_count pick =
     bind_err (QuantumCircuit (inputs_count + 1) 0) (\<lambda>oracle.
     bind_err (randint 0 2 pick) (\<lambda>coin.
     bind_err (if coin = 1 then qc_x inputs_count oracle else Inr oracle) (\<lambda>oracle.
       Inr ((to_instruction oracle)\<lparr>name := ''ConstantOracle''\<rparr>))))"

section \<open>Circuit composition\<close>

definition construct_the_circuit :: "Instruction \<Rightarrow> error + QuantumCircuit" where
  "construct_the_circuit oracle_block =
     (let input_length = int (num_qubits oracle_block) - 1 in
      bind_err (QuantumCircuit (input_length + 1) input_length) (\<lambda>circuit.
      bind_err (for_each qc_h (py_range input_length) circuit) (\<lambda>circuit.
      bind_err (qc_x input_length circuit) (\<lambda>circuit.
      bind_err (qc_h input_length circuit) (\<lambda>circuit.
      bind_err (qc_append oracle_block
                  (py_range (int (num_qubits oracle_block)))
                  (py_range (int (num_clbits oracle_block)))
                  (qc_barrier circuit)) (\<lambda>circuit.
      bind_err (for_each qc_h (py_range input_length) (qc_barrier circuit)) (\<lambda>circuit.
      for_each (\<lambda>qubit. qc_measure qubit qubit) (py_range input_length)
        (qc_barrier circuit))))))))"

section \<open>Running and classifying\<close>

text \<open>
  The counts a backend reports: a dictionary from bit strings to numbers of occurrences,
  kept as an association list; \<^verbatim>\<open>key in answer\<close> asks whether the key occurs.
\<close>

type_synonym counts = "(string \<times> nat) list"

text \<open>
  The decision \<^verbatim>\<open>simulate\<close> takes on the counts (its last four lines), for
  \<open>n = circuit.num_qubits - 1\<close>: \<^verbatim>\<open>"0" * n\<close> is the empty string when \<open>n \<le> 0\<close>.
\<close>

definition classify :: "int \<Rightarrow> counts \<Rightarrow> (string \<times> string) list" where
  "classify n answer =
     (if replicate (nat n) CHR ''0'' \<in> set (map fst answer)
      then [(''result'', ''Constant'')]
      else [(''result'', ''Balanced'')])"

text \<open>
  \<^verbatim>\<open>simulate\<close>: the transpiler, the assembler and the simulator are the external
  backend, the function \<open>backend\<close> from the composed circuit to the counts of one run.
\<close>

definition simulate ::
  "(QuantumCircuit \<Rightarrow> counts) \<Rightarrow> Instruction \<Rightarrow> error + (string \<times> string) list" where
  "simulate backend oracle_block =
     bind_err (construct_the_circuit oracle_block) (\<lambda>circuit.
       let answer = backend circuit
       in Inr (classify (int (num_qubits circuit) - 1) answer))"

section \<open>Shapes of the synthesised and composed circuits\<close>

text \<open>
  The gate list the balanced synthesiser is shown to produce for the mask \<open>m\<close> on \<open>n\<close>
  inputs, and the operation list the composer is shown to produce around an oracle.
\<close>

definition balanced_gates :: "nat \<Rightarrow> nat \<Rightarrow> gate list" where
  "balanced_gates n m =
     map XGate (filter (bit m) [0..<n])
     @ map (\<lambda>i. CXGate i n) [0..<n]
     @ map XGate (filter (bit m) [0..<n])"

definition composed_data :: "Instruction \<Rightarrow> nat \<Rightarrow> operation list" where
  "composed_data oracle_block n =
     map (\<lambda>q. Gate (HGate q)) [0..<n]
     @ [Gate (XGate n), Gate (HGate n), Gate (Barrier [0..<Suc n])]
     @ [Block oracle_block [0..<Suc n] [0..<num_clbits oracle_block]]
     @ [Gate (Barrier [0..<Suc n])]
     @ map (\<lambda>q. Gate (HGate q)) [0..<n]
     @ [Gate (Barrier [0..<Suc n])]
     @ map (\<lambda>q. Gate (Measure q q)) [0..<n]"

definition bit_char :: "nat \<Rightarrow> nat \<Rightarrow> char" where
  "bit_char m i = (if bit m i then CHR ''1'' else CHR ''0'')"

text \<open>A gate whose wires and classical bits exist in a circuit of the given sizes.\<close>

fun wires_within :: "nat \<Rightarrow> nat \<Rightarrow> gate \<Rightarrow> bool" where
  "wires_within nq nc (XGate q) = (q < nq)"
| "wires_within nq nc (HGate q) = (q < nq)"
| "wires_within nq nc (CXGate c t) = (c < nq \<and> t < nq)"
| "wires_within nq nc (Barrier ws) = list_all (\<lambda>w. w < nq) ws"
| "wires_within nq nc (Measure q b) = (q < nq \<and> b < nc)"

fun is_measure :: "gate \<Rightarrow> bool" where
  "is_measure (Measure q b) = True"
| "is_measure g = False"

section \<open>What the gates do\<close>

text \<open>
  Modelled from the spec: the meaning of the gates, which is the circuit library's and the
  simulator's (neither is part of the repository). The spec calls \<^verbatim>\<open>x\<close> an
  unconditional flip of a wire, \<^verbatim>\<open>cx\<close> a controlled flip (the control wire decides
  whether the target is flipped), \<^verbatim>\<open>h\<close> the balanced-superposition transform, and the
  barrier a marker without effect. On a classical assignment of the wires a flip negates
  the wire's value; the superposition transform and the measurement have no classical
  reading, so the classical run of a gate list containing one is \<open>None\<close>.
\<close>

definition toggle :: "nat \<Rightarrow> bool list \<Rightarrow> bool list" where
  "toggle q b = b[q := \<not> b ! q]"

fun classical_gate :: "gate \<Rightarrow> bool list \<Rightarrow> bool list option" where
  "classical_gate (XGate q) b = Some (toggle q b)"
| "classical_gate (CXGate c t) b = Some (if b ! c then toggle t b else b)"
| "classical_gate (Barrier ws) b = Some b"
| "classical_gate (HGate q) b = None"
| "classical_gate (Measure q c) b = None"

fun run_classical :: "gate list \<Rightarrow> bool list \<Rightarrow> bool list option" where
  "run_classical [] b = Some b"
| "run_classical (g # gs) b =
     (case classical_gate g b of None \<Rightarrow> None | Some b' \<Rightarrow> run_classical gs b')"

text \<open>The assignment with the wires below \<open>k\<close> that satisfy \<open>P\<close> flipped.\<close>

definition flip_where :: "(nat \<Rightarrow> bool) \<Rightarrow> nat \<Rightarrow> bool list \<Rightarrow> bool list" where
  "flip_where P k b = map (\<lambda>i. if i < k \<and> P i then \<not> b ! i else b ! i) [0..<length b]"

text \<open>
  The boolean function an oracle computes: the ancilla (the last wire), started at 0,
  after the oracle has run on the inputs \<open>xs\<close>.
\<close>

definition oracle_function :: "Instruction \<Rightarrow> bool list \<Rightarrow> bool option" where
  "oracle_function inst xs = map_option last (run_classical (data inst) (xs @ [False]))"

definition odd_ones :: "bool list \<Rightarrow> bool" where
  "odd_ones xs = odd (length (filter (\<lambda>v. v) xs))"

definition mask_parity :: "nat \<Rightarrow> nat \<Rightarrow> bool" where
  "mask_parity n m = odd (length (filter (bit m) [0..<n]))"

text \<open>
  Modelled from the spec: the ideal (noiseless) execution backend, an external
  collaborator of which the repository holds only the call. A state of the wires gives
  every classical assignment an amplitude. The amplitudes are kept as integers, without
  the factor \<open>1 / sqrt 2\<close> of each superposition transform; the number of transforms is
  counted, and a probability divides the squared amplitudes by two to that number. The
  run starts with every wire at 0. Measurements are read off the final state, which is
  exact for circuits that, like the composed one, measure last and write every classical
  bit at most once.
\<close>

type_synonym amplitudes = "bool list \<Rightarrow> int"

fun apply_gate :: "gate \<Rightarrow> amplitudes \<Rightarrow> amplitudes" where
  "apply_gate (XGate q) psi = (\<lambda>b. psi (toggle q b))"
| "apply_gate (CXGate c t) psi = (\<lambda>b. psi (if b ! c then toggle t b else b))"
| "apply_gate (HGate q) psi =
     (\<lambda>b. psi (b[q := False]) + (if b ! q then - psi (b[q := True]) else psi (b[q := True])))"
| "apply_gate (Barrier ws) psi = psi"
| "apply_gate (Measure q c) psi = psi"

definition zero_state :: "nat \<Rightarrow> amplitudes" where
  "zero_state n = (\<lambda>b. if b = replicate n False then 1 else 0)"

definition final_amplitudes :: "QuantumCircuit \<Rightarrow> amplitudes" where
  "final_amplitudes c = fold apply_gate (decompose c) (zero_state (num_qubits c))"

fun hadamard_count :: "gate list \<Rightarrow> nat" where
  "hadamard_count [] = 0"
| "hadamard_count (HGate q # gs) = Suc (hadamard_count gs)"
| "hadamard_count (g # gs) = hadamard_count gs"

fun measured :: "gate list \<Rightarrow> (nat \<times> nat) list" where
  "measured [] = []"
| "measured (Measure q c # gs) = (q, c) # measured gs"
| "measured (g # gs) = measured gs"

definition basis_states :: "nat \<Rightarrow> bool list list" where
  "basis_states n = List.n_lists n [False, True]"

text \<open>An assignment of the wires agrees with a classical register on the measured wires.\<close>

definition agrees :: "(nat \<times> nat) list \<Rightarrow> bool list \<Rightarrow> bool list \<Rightarrow> bool" where
  "agrees ms cl b = list_all (\<lambda>(q, c). b ! q = cl ! c) ms"

definition probability :: "QuantumCircuit \<Rightarrow> bool list \<Rightarrow> real" where
  "probability c cl =
     (let gs = decompose c; ms = measured gs in
      if length cl = num_clbits c
         \<and> list_all (\<lambda>i. i \<in> set (map snd ms) \<or> cl ! i = False) [0..<num_clbits c]
      then real_of_int (\<Sum>b\<leftarrow>filter (agrees ms cl) (basis_states (num_qubits c)).
                          (final_amplitudes c b)\<^sup>2)
           / 2 ^ hadamard_count gs
      else 0)"

text \<open>
  A key of the counts shows the classical bits as characters, the highest bit first.
\<close>

definition key_bits :: "string \<Rightarrow> bool list" where
  "key_bits key = rev (map (\<lambda>ch. ch = CHR ''1'') key)"

text \<open>
  The counts an ideal backend can report for a circuit: at least one outcome, every key
  once, and every key a bit string of the register's length that was seen at least once
  and has a positive probability.
\<close>

definition ideal_counts :: "QuantumCircuit \<Rightarrow> counts \<Rightarrow> bool" where
  "ideal_counts c answer =
     (answer \<noteq> [] \<and> distinct (map fst answer)
      \<and> list_all (\<lambda>(key, k). 0 < k \<and> length key = num_clbits c
            \<and> list_all (\<lambda>ch. ch = CHR ''0'' \<or> ch = CHR ''1'') key
            \<and> 0 < probability c (key_bits key)) answer)"

text \<open>
  Product states, for the proofs: a state whose amplitude at an assignment is the product
  of one factor per wire, the pair \<open>(factor at 0, factor at 1)\<close>. The flips and the
  superposition transform keep a state a product; so does a controlled flip whose target
  has opposite factors, which then only changes the sign of the control's factor at 1.
\<close>

definition factor_at :: "int \<times> int \<Rightarrow> bool \<Rightarrow> int" where
  "factor_at p v = (if v then snd p else fst p)"

definition product_state :: "nat \<Rightarrow> (nat \<Rightarrow> int \<times> int) \<Rightarrow> amplitudes \<Rightarrow> bool" where
  "product_state N fs psi =
     (\<forall>b. length b = N \<longrightarrow> psi b = (\<Prod>i<N. factor_at (fs i) (b ! i)))"

fun factor_gate :: "nat \<Rightarrow> gate \<Rightarrow> (nat \<Rightarrow> int \<times> int) \<Rightarrow> (nat \<Rightarrow> int \<times> int) option" where
  "factor_gate N (XGate q) fs =
     (if q < N then Some (fs(q := (snd (fs q), fst (fs q)))) else None)"
| "factor_gate N (HGate q) fs =
     (if q < N then Some (fs(q := (fst (fs q) + snd (fs q), fst (fs q) - snd (fs q))))
      else None)"
| "factor_gate N (CXGate c t) fs =
     (if c < N \<and> t < N \<and> c \<noteq> t \<and> snd (fs t) = - fst (fs t)
      then Some (fs(c := (fst (fs c), - snd (fs c)))) else None)"
| "factor_gate N (Barrier ws) fs = Some fs"
| "factor_gate N (Measure q c) fs = Some fs"

fun factor_run :: "nat \<Rightarrow> gate list \<Rightarrow> (nat \<Rightarrow> int \<times> int) \<Rightarrow> (nat \<Rightarrow> int \<times> int) option" where
  "factor_run N [] fs = Some fs"
| "factor_run N (g # gs) fs =
     (case factor_gate N g fs of None \<Rightarrow> None | Some fs' \<Rightarrow> factor_run N gs fs')"

text \<open>
  The factors after the composer's first stage: every input wire in the even
  superposition, the ancilla with opposite factors.
\<close>

definition prepared :: "nat \<Rightarrow> nat \<Rightarrow> int \<times> int" where
  "prepared n = (\<lambda>i. if i < n then (1, 1) else if i = n then (1, - 1) else (1, 0))"

section \<open>Basic facts\<close>

declare bin.simps [simp del]

lemma bind_err_simps [simp]:
  "bind_err (Inl e) f = Inl e" "bind_err (Inr v) f = f v"
  by (simp_all add: bind_err_def)

lemma py_index_in_range [simp]: "i < len \<Longrightarrow> py_index len (int i) = Inr i"
  by (simp add: py_index_def)

lemma add_op_fields [simp]:
  "num_qubits (add_op p c) = num_qubits c" "num_clbits (add_op p c) = num_clbits c"
  "name (add_op p c) = name c" "data (add_op p c) = data c @ [p]"
  by (simp_all add: add_op_def)

lemma map_err_index:
  "\<forall>q \<in> set qs. q < len \<Longrightarrow> map_err (py_index len) (map int qs) = Inr qs"
  by (induction qs) simp_all

lemma decompose_gates: "data c = map Gate gs \<Longrightarrow> decompose c = gs"
  by (simp add: decompose_def o_def)

subsection \<open>The loops of the composer\<close>

lemma for_each_h:
  "\<forall>q \<in> set qs. q < num_qubits c \<Longrightarrow>
   for_each qc_h (map int qs) c = Inr (c\<lparr>data := data c @ map (\<lambda>q. Gate (HGate q)) qs\<rparr>)"
proof (induction qs arbitrary: c)
  case Nil
  show ?case by simp
next
  case (Cons q qs)
  let ?c = "add_op (Gate (HGate q)) c"
  have "qc_h (int q) c = Inr ?c"
    using Cons.prems by (simp add: qc_h_def)
  moreover have "for_each qc_h (map int qs) ?c
      = Inr (?c\<lparr>data := data ?c @ map (\<lambda>q. Gate (HGate q)) qs\<rparr>)"
    using Cons.prems by (intro Cons.IH) simp
  ultimately show ?case by (simp add: add_op_def)
qed

lemma for_each_measure:
  "\<forall>q \<in> set qs. q < num_qubits c \<and> q < num_clbits c \<Longrightarrow>
   for_each (\<lambda>qubit. qc_measure qubit qubit) (map int qs) c
     = Inr (c\<lparr>data := data c @ map (\<lambda>q. Gate (Measure q q)) qs\<rparr>)"
proof (induction qs arbitrary: c)
  case Nil
  show ?case by simp
next
  case (Cons q qs)
  let ?c = "add_op (Gate (Measure q q)) c"
  have "qc_measure (int q) (int q) c = Inr ?c"
    using Cons.prems by (simp add: qc_measure_def)
  moreover have "for_each (\<lambda>qubit. qc_measure qubit qubit) (map int qs) ?c
      = Inr (?c\<lparr>data := data ?c @ map (\<lambda>q. Gate (Measure q q)) qs\<rparr>)"
    using Cons.prems by (intro Cons.IH) simp
  ultimately show ?case by (simp add: add_op_def)
qed

text \<open>
  The composer succeeds on every oracle with at least one wire whose classical bits fit,
  and produces the operations of \<open>composed_data\<close>.
\<close>

lemma construct_the_circuit_eq:
  assumes "num_qubits oracle_block = Suc n" and "num_clbits oracle_block \<le> n"
  shows "construct_the_circuit oracle_block =
           Inr \<lparr>name = ''circuit'', num_qubits = Suc n, num_clbits = n,
                data = composed_data oracle_block n\<rparr>"
proof -
  let ?c0 = "\<lparr>name = ''circuit'', num_qubits = Suc n, num_clbits = n, data = []\<rparr>
               :: QuantumCircuit"
  have il: "int (num_qubits oracle_block) - 1 = int n" using assms by simp
  have c0: "QuantumCircuit (int n + 1) (int n) = Inr ?c0"
    by (simp add: QuantumCircuit_def nat_add_distrib)
  have app: "qc_append oracle_block (map int [0..<Suc n])
               (map int [0..<num_clbits oracle_block]) c
          = Inr (add_op (Block oracle_block [0..<Suc n] [0..<num_clbits oracle_block]) c)"
    if "num_qubits c = Suc n" "num_clbits c = n" for c
    unfolding qc_append_def using that assms
    by (simp add: map_err_index del: upt_Suc)
  have nq: "nat (1 + int n) = Suc n" by simp
  show ?thesis
    unfolding construct_the_circuit_def Let_def il c0 py_range_def
    using assms
    by (simp add: for_each_h for_each_measure app nq qc_x_def qc_h_def
        qc_barrier_def composed_data_def del: upt_Suc)
qed

subsection \<open>Binary digits of the mask\<close>

lemma bin_length_le: "m < 2 ^ n \<Longrightarrow> 0 < n \<Longrightarrow> length (bin m) \<le> n"
proof (induction m arbitrary: n rule: bin.induct)
  case (1 m)
  show ?case
  proof (cases "m < 2")
    case True
    then show ?thesis using "1.prems" by (simp add: bin.simps[of m])
  next
    case False
    then obtain k where k: "n = Suc k" "0 < k"
      using "1.prems" by (cases n; cases "n - 1") auto
    have "m div 2 < 2 ^ k" using "1.prems"(1) k by simp
    from "1.IH"[OF False this k(2)] show ?thesis
      using False k by (simp add: bin.simps[of m])
  qed
qed

lemma bin_rev:
  "rev (bin m) = map (bit_char m) [0..<length (bin m)] \<and> (\<forall>i \<ge> length (bin m). \<not> bit m i)"
proof (induction m rule: bin.induct)
  case (1 m)
  show ?case
  proof (cases "m < 2")
    case True
    then consider "m = 0" | "m = Suc 0" by (cases m) auto
    then show ?thesis
    proof cases
      case 1
      then show ?thesis by (simp add: bin.simps[of 0] bit_char_def)
    next
      case 2
      have "bin (Suc 0) = [CHR ''1'']" by (simp add: bin.simps[of "Suc 0"])
      moreover have "\<not> bit (Suc 0) i" if "Suc 0 \<le> i" for i
        using that by (cases i) (simp_all add: bit_Suc)
      ultimately show ?thesis using 2 by (simp add: bit_char_def bit_0)
    qed
  next
    case False
    let ?L = "length (bin (m div 2))"
    from "1.IH"[OF False]
    have ih: "rev (bin (m div 2)) = map (bit_char (m div 2)) [0..<?L]"
      and hi: "\<forall>i \<ge> ?L. \<not> bit (m div 2) i" by simp_all
    have b: "bin m = bin (m div 2) @ [if even m then CHR ''0'' else CHR ''1'']"
      using False by (simp add: bin.simps[of m])
    have "map (bit_char m) [0..<Suc ?L] = bit_char m 0 # map (bit_char (m div 2)) [0..<?L]"
      by (simp add: map_upt_Suc bit_char_def bit_Suc del: upt_Suc)
    moreover have "bit_char m 0 = (if even m then CHR ''0'' else CHR ''1'')"
      by (simp add: bit_char_def bit_0)
    moreover have "\<not> bit m i" if le: "Suc ?L \<le> i" for i
    proof -
      obtain j where "i = Suc j" "?L \<le> j" using le by (cases i) auto
      then show ?thesis using hi by (simp add: bit_Suc)
    qed
    ultimately show ?thesis using ih by (simp add: b del: upt_Suc)
  qed
qed

lemma format_b_mask:
  assumes "m < 2 ^ n" and "0 < n"
  shows "\<exists>inputs. format_b (int m) (int n) = Inr inputs \<and> length inputs = n
           \<and> rev inputs = map (bit_char m) [0..<n]"
proof -
  let ?L = "length (bin m)"
  have L: "?L \<le> n" using assms by (rule bin_length_le)
  let ?s = "replicate (n - ?L) CHR ''0'' @ bin m"
  have f: "format_b (int m) (int n) = Inr ?s"
    by (simp add: format_b_def Let_def)
  have "map (bit_char m) [0..<n] = map (bit_char m) [0..<?L] @ map (bit_char m) [?L..<n]"
    using L by (metis map_append upt_add_eq_append le_add_diff_inverse zero_le)
  also have "map (bit_char m) [?L..<n] = replicate (n - ?L) CHR ''0''"
    using bin_rev[of m] by (auto simp: bit_char_def intro!: nth_equalityI)
  finally have "rev ?s = map (bit_char m) [0..<n]"
    using bin_rev[of m] by simp
  moreover have "length ?s = n" using L by simp
  ultimately show ?thesis using f by blast
qed

subsection \<open>The loops of the balanced synthesiser\<close>

lemma enumerate_map_upt: "enumerate 0 (map f [0..<n]) = map (\<lambda>i. (i, f i)) [0..<n]"
  by (auto simp: enumerate_eq_zip intro!: nth_equalityI)

lemma enumerate_nth_upt:
  "length xs = n \<Longrightarrow> enumerate 0 xs = map (\<lambda>i. (i, xs ! i)) [0..<n]"
  by (auto simp: enumerate_eq_zip intro!: nth_equalityI)

lemma x_if_one_step:
  "i < num_qubits c \<Longrightarrow>
   x_if_one (i, ch) c = Inr (if ch = CHR ''1'' then add_op (Gate (XGate i)) c else c)"
  by (simp add: x_if_one_def qc_x_def)

lemma cx_to_step:
  "i < n \<Longrightarrow> n < num_qubits c \<Longrightarrow>
   cx_to (int n) (i, ch) c = Inr (add_op (Gate (CXGate i n)) c)"
  by (simp add: cx_to_def qc_cx_def)

lemma for_each_x_if_one:
  "\<forall>i \<in> set is. i < num_qubits c \<Longrightarrow>
   for_each x_if_one (map (\<lambda>i. (i, f i)) is) c
     = Inr (c\<lparr>data := data c
              @ map (\<lambda>i. Gate (XGate i)) (filter (\<lambda>i. f i = CHR ''1'') is)\<rparr>)"
proof (induction "is" arbitrary: c)
  case Nil
  show ?case by simp
next
  case (Cons i rest)
  show ?case
  proof (cases "f i = CHR ''1''")
    case True
    let ?c = "add_op (Gate (XGate i)) c"
    have "for_each x_if_one (map (\<lambda>i. (i, f i)) rest) ?c
      = Inr (?c\<lparr>data := data ?c
            @ map (\<lambda>i. Gate (XGate i)) (filter (\<lambda>i. f i = CHR ''1'') rest)\<rparr>)"
      using Cons.prems by (intro Cons.IH) simp
    then show ?thesis using True Cons.prems
      by (simp add: x_if_one_step add_op_def)
  next
    case False
    then show ?thesis using Cons.prems Cons.IH[of c]
      by (simp add: x_if_one_step)
  qed
qed

lemma for_each_cx_to:
  "\<forall>i \<in> set is. i < n \<Longrightarrow> n < num_qubits c \<Longrightarrow>
   for_each (cx_to (int n)) (map (\<lambda>i. (i, f i)) is) c
     = Inr (c\<lparr>data := data c @ map (\<lambda>i. Gate (CXGate i n)) is\<rparr>)"
proof (induction "is" arbitrary: c)
  case Nil
  show ?case by simp
next
  case (Cons i rest)
  let ?c = "add_op (Gate (CXGate i n)) c"
  have "for_each (cx_to (int n)) (map (\<lambda>i. (i, f i)) rest) ?c
      = Inr (?c\<lparr>data := data ?c @ map (\<lambda>i. Gate (CXGate i n)) rest\<rparr>)"
    using Cons.prems by (intro Cons.IH) simp_all
  then show ?case using Cons.prems
    by (simp add: cx_to_step add_op_def)
qed

text \<open>
  For a mask \<open>m\<close> below \<open>2 ^ n\<close> the balanced synthesiser succeeds and produces the
  gates of \<open>balanced_gates\<close>.
\<close>

lemma balanced_oracle_for_eq:
  assumes "m < 2 ^ n" and "0 < n"
  shows "balanced_oracle_for (int n) (int m) =
           Inr \<lparr>name = ''BalancedOracle'', num_qubits = Suc n, num_clbits = n,
                data = balanced_gates n m\<rparr>"
proof -
  obtain inputs where f: "format_b (int m) (int n) = Inr inputs" and len: "length inputs = n"
    and r: "rev inputs = map (bit_char m) [0..<n]"
    using format_b_mask[OF assms] by blast
  let ?c0 = "\<lparr>name = ''circuit'', num_qubits = Suc n, num_clbits = n, data = []\<rparr>
               :: QuantumCircuit"
  have c0: "QuantumCircuit (int n + 1) (int n) = Inr ?c0"
    by (simp add: QuantumCircuit_def nat_add_distrib)
  have e1: "enumerate 0 (rev inputs) = map (\<lambda>i. (i, bit_char m i)) [0..<n]"
    unfolding r by (rule enumerate_map_upt)
  have e2: "enumerate 0 inputs = map (\<lambda>i. (i, inputs ! i)) [0..<n]"
    using len by (rule enumerate_nth_upt)
  have one: "(\<lambda>i. bit_char m i = CHR ''1'') = bit m"
    by (auto simp: bit_char_def)
  let ?xs = "map (\<lambda>i. Gate (XGate i)) (filter (bit m) [0..<n])"
  let ?cs = "map (\<lambda>i. Gate (CXGate i n)) [0..<n]"
  have s1: "for_each x_if_one (enumerate 0 (rev inputs)) c = Inr (c\<lparr>data := data c @ ?xs\<rparr>)"
    if "num_qubits c = Suc n" for c
    unfolding e1 using that by (subst for_each_x_if_one) (simp_all add: one)
  have s2: "for_each (cx_to (int n)) (enumerate 0 inputs) c = Inr (c\<lparr>data := data c @ ?cs\<rparr>)"
    if "num_qubits c = Suc n" for c
    unfolding e2 using that by (subst for_each_cx_to) simp_all
  have "?xs @ ?cs @ ?xs = map Gate (balanced_gates n m)"
    by (simp add: balanced_gates_def)
  then show ?thesis
    unfolding balanced_oracle_for_def f c0
    by (simp add: s1 s2 to_instruction_def decompose_gates del: upt_Suc)
qed

subsection \<open>The random draw\<close>

lemma randint_range:
  assumes "low < high" and "int64_min \<le> low" and "high - 1 \<le> int64_max"
  shows "\<exists>r. randint low high pick = Inr r \<and> low \<le> r \<and> r < high"
proof -
  have "0 < nat (high - low)" using assms(1) by simp
  then have "pick mod nat (high - low) < nat (high - low)" by (rule mod_less_divisor)
  then have "int (pick mod nat (high - low)) < high - low" by linarith
  then show ?thesis using assms by (simp add: randint_def)
qed


text \<open>Whatever the draw returns lies in the range.\<close>

lemma randint_result:
  assumes "randint low high pick = Inr r"
  shows "low \<le> r \<and> r < high"
proof -
  have lh: "low < high" using assms by (simp add: randint_def split: if_splits)
  then have "0 < nat (high - low)" by simp
  then have "pick mod nat (high - low) < nat (high - low)" by (rule mod_less_divisor)
  then have "int (pick mod nat (high - low)) < high - low" by linarith
  moreover have "r = low + int (pick mod nat (high - low))"
    using assms by (simp add: randint_def split: if_splits)
  ultimately show ?thesis by simp
qed


text \<open>The bound of the draw in terms of the number of inputs.\<close>

lemma two_to_the_within:
  assumes "1 \<le> n" and "n \<le> 63"
  shows "1 < two_to_the n \<and> two_to_the n - 1 \<le> int64_max \<and> two_to_the n = 2 ^ nat n"
proof -
  have le: "nat n \<le> 63" and pos: "0 < nat n" using assms by simp_all
  have "(2::int) ^ nat n \<le> 2 ^ 63"
    using le by (intro power_increasing) simp_all
  moreover have "(1::int) < 2 ^ nat n"
    using pos by (intro one_less_power) simp_all
  ultimately show ?thesis using assms by (simp add: two_to_the_def int64_max_def)
qed


lemma constant_oracle_eq:
  assumes "0 \<le> n"
  shows "give_a_constant_oracle n pick =
           Inr \<lparr>name = ''ConstantOracle'', num_qubits = nat n + 1, num_clbits = 0,
                data = (if odd pick then [XGate (nat n)] else [])\<rparr>"
proof -
  have "randint 0 2 pick = Inr (if odd pick then 1 else 0)"
    by (auto simp: randint_def int64_min_def int64_max_def odd_iff_mod_2_eq_one)
  then show ?thesis using assms
    by (simp add: give_a_constant_oracle_def QuantumCircuit_def qc_x_def py_index_def
        to_instruction_def decompose_def add_op_def nat_add_distrib)
qed

subsection \<open>The gates of a composed circuit\<close>

lemma concat_expand_gates: "concat (map (\<lambda>q. expand (Gate (f q))) qs) = map f qs"
  by (induction qs) simp_all

lemma remap_identity:
  "wires_within nq nc g \<Longrightarrow> remap [0..<nq] [0..<nc] g = g"
proof (cases g)
  case (Barrier ws)
  assume "wires_within nq nc g"
  then have "\<forall>w \<in> set ws. w < nq" using Barrier by (simp add: list_all_iff)
  then have "map ((!) [0..<nq]) ws = ws" by (intro map_idI) simp
  then show ?thesis using Barrier by simp
qed simp_all

lemma remap_is_measure [simp]: "is_measure (remap qs cs g) = is_measure g"
  by (cases g) simp_all

lemma decompose_composed:
  "decompose \<lparr>name = nm, num_qubits = nq, num_clbits = nc, data = composed_data ob n\<rparr> =
     map HGate [0..<n] @ [XGate n, HGate n, Barrier [0..<Suc n]]
     @ map (remap [0..<Suc n] [0..<num_clbits ob]) (data ob)
     @ [Barrier [0..<Suc n]] @ map HGate [0..<n] @ [Barrier [0..<Suc n]]
     @ map (\<lambda>q. Measure q q) [0..<n]"
  by (simp add: decompose_def composed_data_def o_def concat_expand_gates del: upt_Suc)

subsection \<open>Classical runs of the balanced oracle\<close>

lemma run_classical_append:
  "run_classical (gs @ hs) b =
     (case run_classical gs b of None \<Rightarrow> None | Some b' \<Rightarrow> run_classical hs b')"
  by (induction gs arbitrary: b) (auto split: option.splits)

lemma flip_where_0: "flip_where P 0 b = b"
  by (simp add: flip_where_def map_nth)

lemma length_flip_where [simp]: "length (flip_where P k b) = length b"
  by (simp add: flip_where_def)

lemma flip_where_Suc:
  "k < length b \<Longrightarrow>
   flip_where P (Suc k) b = (if P k then toggle k (flip_where P k b) else flip_where P k b)"
proof (rule nth_equalityI)
  show "length (flip_where P (Suc k) b)
          = length (if P k then toggle k (flip_where P k b) else flip_where P k b)"
    by (simp add: toggle_def)
next
  fix i assume "i < length (flip_where P (Suc k) b)"
  then have i: "i < length b" by simp
  assume k: "k < length b"
  show "flip_where P (Suc k) b ! i
          = (if P k then toggle k (flip_where P k b) else flip_where P k b) ! i"
    using i k by (cases "i = k") (simp_all add: flip_where_def toggle_def less_Suc_eq)
qed

lemma run_classical_x_loop:
  "k \<le> length b \<Longrightarrow>
   run_classical (map XGate (filter P [0..<k])) b = Some (flip_where P k b)"
proof (induction k)
  case 0
  show ?case by (simp add: flip_where_0)
next
  case (Suc k)
  then show ?case
    by (simp add: run_classical_append flip_where_Suc)
qed

lemma odd_ones_take_Suc:
  "k < length b \<Longrightarrow> odd_ones (take (Suc k) b) = (odd_ones (take k b) \<noteq> b ! k)"
  by (simp add: odd_ones_def take_Suc_conv_app_nth)

lemma run_classical_cx_loop:
  "k \<le> n \<Longrightarrow> n < length b \<Longrightarrow>
   run_classical (map (\<lambda>i. CXGate i n) [0..<k]) b
     = Some (b[n := (b ! n \<noteq> odd_ones (take k b))])"
proof (induction k)
  case 0
  show ?case by (simp add: odd_ones_def)
next
  case (Suc k)
  then have k: "k < n" "k < length b" by simp_all
  show ?case
    using Suc k
    by (auto simp: run_classical_append odd_ones_take_Suc toggle_def)
qed

lemma odd_filter_xor:
  "odd (length (filter (\<lambda>i. P i \<noteq> Q i) [0..<n]))
     = (odd (length (filter P [0..<n])) \<noteq> odd (length (filter Q [0..<n])))"
  by (induction n) auto

lemma odd_ones_index:
  "odd_ones xs = odd (length (filter (\<lambda>i. xs ! i) [0..<length xs]))"
proof -
  have "filter (\<lambda>v. v) (map ((!) xs) [0..<length xs]) = filter (\<lambda>v. v) xs"
    by (simp add: map_nth)
  then have "length (filter (\<lambda>v. v) xs) = length (filter (\<lambda>i. xs ! i) [0..<length xs])"
    by (metis (mono_tags, lifting) filter_map length_map o_def filter_cong)
  then show ?thesis by (simp add: odd_ones_def)
qed

lemma odd_ones_flipped:
  assumes "length xs = n"
  shows "odd_ones (map (\<lambda>i. if bit m i then \<not> xs ! i else xs ! i) [0..<n])
           = (odd_ones xs \<noteq> mask_parity n m)"
proof -
  let ?ys = "map (\<lambda>i. if bit m i then \<not> xs ! i else xs ! i) [0..<n]"
  have "filter (\<lambda>i. ?ys ! i) [0..<n] = filter (\<lambda>i. (xs ! i) \<noteq> bit m i) [0..<n]"
    by (rule filter_cong) auto
  then have "odd_ones ?ys = odd (length (filter (\<lambda>i. (xs ! i) \<noteq> bit m i) [0..<n]))"
    using odd_ones_index[of ?ys] by simp
  also have "\<dots> = (odd (length (filter ((!) xs) [0..<n]))
                      \<noteq> odd (length (filter (bit m) [0..<n])))"
    by (rule odd_filter_xor)
  also have "\<dots> = (odd_ones xs \<noteq> mask_parity n m)"
    using assms odd_ones_index[of xs] by (simp add: mask_parity_def)
  finally show ?thesis .
qed

lemma run_classical_balanced:
  assumes "length xs = n"
  shows "run_classical (balanced_gates n m) (xs @ [a])
           = Some (xs @ [a \<noteq> (odd_ones xs \<noteq> mask_parity n m)])"
proof -
  let ?b = "xs @ [a]"
  let ?b1 = "flip_where (bit m) n ?b"
  let ?b2 = "?b1[n := (?b1 ! n \<noteq> odd_ones (take n ?b1))]"
  have s1: "run_classical (map XGate (filter (bit m) [0..<n])) ?b = Some ?b1"
    using assms by (intro run_classical_x_loop) simp
  have s2: "run_classical (map (\<lambda>i. CXGate i n) [0..<n]) ?b1 = Some ?b2"
    using assms by (intro run_classical_cx_loop) simp_all
  have s3: "run_classical (map XGate (filter (bit m) [0..<n])) ?b2 = Some (flip_where (bit m) n ?b2)"
    using assms by (intro run_classical_x_loop) simp
  have t: "take n ?b1 = map (\<lambda>i. if bit m i then \<not> xs ! i else xs ! i) [0..<n]"
    using assms by (auto simp: flip_where_def nth_append intro!: nth_equalityI)
  have a: "?b1 ! n = a"
    using assms by (simp add: flip_where_def nth_append del: upt_Suc)
  have "flip_where (bit m) n ?b2 = xs @ [a \<noteq> (odd_ones xs \<noteq> mask_parity n m)]"
    unfolding t a odd_ones_flipped[OF assms]
    using assms
    by (auto simp: flip_where_def nth_append nth_list_update less_Suc_eq intro!: nth_equalityI)
  then show ?thesis
    using s1 s2 s3 by (simp add: balanced_gates_def run_classical_append)
qed

subsection \<open>Product states under the gates\<close>

lemma prod_split:
  fixes F :: "nat \<Rightarrow> int"
  shows "q < N \<Longrightarrow> (\<Prod>i<N. F i) = F q * (\<Prod>i\<in>{..<N} - {q}. F i)"
  by (simp add: prod.remove)

lemma prod_rest_cong:
  fixes F :: "nat \<Rightarrow> int"
  shows "(\<And>i. i < N \<Longrightarrow> i \<noteq> q \<Longrightarrow> F i = G i)
    \<Longrightarrow> (\<Prod>i\<in>{..<N} - {q}. F i) = (\<Prod>i\<in>{..<N} - {q}. G i)"
  by (intro prod.cong) auto

lemma prod_one_factor:
  fixes F :: "nat \<Rightarrow> int"
  assumes "q < N" and "\<And>i. i < N \<Longrightarrow> i \<noteq> q \<Longrightarrow> F i = G i" and "F q = k * G q"
  shows "(\<Prod>i<N. F i) = k * (\<Prod>i<N. G i)"
proof -
  have "(\<Prod>i\<in>{..<N} - {q}. F i) = (\<Prod>i\<in>{..<N} - {q}. G i)"
    using assms(2) by (rule prod_rest_cong)
  then show ?thesis
    using assms(1,3) by (simp add: prod_split[of q N])
qed

lemma product_state_x:
  assumes "q < N" and "product_state N fs psi"
  shows "product_state N (fs(q := (snd (fs q), fst (fs q)))) (apply_gate (XGate q) psi)"
  unfolding product_state_def
proof (intro allI impI)
  fix b :: "bool list" assume len: "length b = N"
  let ?fs = "fs(q := (snd (fs q), fst (fs q)))"
  have "psi (toggle q b) = (\<Prod>i<N. factor_at (fs i) (toggle q b ! i))"
    using assms(2) len by (simp add: product_state_def toggle_def)
  also have "\<dots> = (\<Prod>i<N. factor_at (?fs i) (b ! i))"
    using assms(1) len
    by (intro prod.cong) (auto simp: toggle_def factor_at_def nth_list_update)
  finally show "apply_gate (XGate q) psi b = (\<Prod>i<N. factor_at (?fs i) (b ! i))"
    by simp
qed

lemma product_state_at:
  assumes "q < N" and "product_state N fs psi" and "length b = N"
  shows "psi (b[q := v]) = factor_at (fs q) v * (\<Prod>i\<in>{..<N} - {q}. factor_at (fs i) (b ! i))"
proof -
  have "psi (b[q := v]) = (\<Prod>i<N. factor_at (fs i) (b[q := v] ! i))"
    using assms(2,3) by (simp add: product_state_def)
  also have "\<dots> = factor_at (fs q) (b[q := v] ! q)
                    * (\<Prod>i\<in>{..<N} - {q}. factor_at (fs i) (b[q := v] ! i))"
    using assms(1) by (rule prod_split)
  also have "(\<Prod>i\<in>{..<N} - {q}. factor_at (fs i) (b[q := v] ! i))
               = (\<Prod>i\<in>{..<N} - {q}. factor_at (fs i) (b ! i))"
    by (rule prod_rest_cong) simp
  finally show ?thesis using assms(1,3) by simp
qed

lemma product_state_h:
  assumes "q < N" and "product_state N fs psi"
  shows "product_state N (fs(q := (fst (fs q) + snd (fs q), fst (fs q) - snd (fs q))))
           (apply_gate (HGate q) psi)"
  unfolding product_state_def
proof (intro allI impI)
  fix b :: "bool list" assume len: "length b = N"
  let ?fs = "fs(q := (fst (fs q) + snd (fs q), fst (fs q) - snd (fs q)))"
  let ?R = "\<Prod>i\<in>{..<N} - {q}. factor_at (fs i) (b ! i)"
  have "(\<Prod>i<N. factor_at (?fs i) (b ! i))
          = factor_at (?fs q) (b ! q) * (\<Prod>i\<in>{..<N} - {q}. factor_at (?fs i) (b ! i))"
    using assms(1) by (rule prod_split)
  also have "(\<Prod>i\<in>{..<N} - {q}. factor_at (?fs i) (b ! i)) = ?R"
    by (rule prod_rest_cong) simp
  finally have rhs: "(\<Prod>i<N. factor_at (?fs i) (b ! i)) = factor_at (?fs q) (b ! q) * ?R" .
  show "apply_gate (HGate q) psi b = (\<Prod>i<N. factor_at (?fs i) (b ! i))"
    unfolding rhs
    by (simp add: product_state_at[OF assms len] factor_at_def algebra_simps)
qed

lemma product_state_cx:
  assumes "c < N" and "t < N" and "c \<noteq> t" and "snd (fs t) = - fst (fs t)"
    and "product_state N fs psi"
  shows "product_state N (fs(c := (fst (fs c), - snd (fs c)))) (apply_gate (CXGate c t) psi)"
  unfolding product_state_def
proof (intro allI impI)
  fix b :: "bool list" assume len: "length b = N"
  let ?fs = "fs(c := (fst (fs c), - snd (fs c)))"
  have orig: "psi b = (\<Prod>i<N. factor_at (fs i) (b ! i))"
    using assms(5) len by (simp add: product_state_def)
  show "apply_gate (CXGate c t) psi b = (\<Prod>i<N. factor_at (?fs i) (b ! i))"
  proof (cases "b ! c")
    case False
    have "(\<Prod>i<N. factor_at (?fs i) (b ! i)) = (\<Prod>i<N. factor_at (fs i) (b ! i))"
      using False by (intro prod.cong) (auto simp: factor_at_def)
    then show ?thesis using False orig by simp
  next
    case True
    have "psi (toggle t b) = (\<Prod>i<N. factor_at (fs i) (toggle t b ! i))"
      using assms(5) len by (simp add: product_state_def toggle_def)
    also have "\<dots> = (- 1) * (\<Prod>i<N. factor_at (fs i) (b ! i))"
      using assms(2,4) len
      by (intro prod_one_factor[of t]) (auto simp: toggle_def factor_at_def)
    finally have l: "psi (toggle t b) = - (\<Prod>i<N. factor_at (fs i) (b ! i))" by simp
    have "(\<Prod>i<N. factor_at (?fs i) (b ! i)) = (- 1) * (\<Prod>i<N. factor_at (fs i) (b ! i))"
      using assms(1) True
      by (intro prod_one_factor[of c]) (auto simp: factor_at_def)
    then show ?thesis using True l by simp
  qed
qed

lemma factor_gate_sound:
  "factor_gate N g fs = Some fs' \<Longrightarrow> product_state N fs psi
     \<Longrightarrow> product_state N fs' (apply_gate g psi)"
proof (cases g)
  case (XGate q)
  assume "factor_gate N g fs = Some fs'" "product_state N fs psi"
  then show ?thesis using XGate product_state_x[of q N fs psi]
    by (auto split: if_splits)
next
  case (HGate q)
  assume "factor_gate N g fs = Some fs'" "product_state N fs psi"
  then show ?thesis using HGate product_state_h[of q N fs psi]
    by (auto split: if_splits)
next
  case (CXGate c t)
  assume "factor_gate N g fs = Some fs'" "product_state N fs psi"
  then show ?thesis using CXGate product_state_cx[of c N t fs psi]
    by (auto split: if_splits)
qed auto

lemma factor_run_sound:
  "factor_run N gs fs = Some fs' \<Longrightarrow> product_state N fs psi
     \<Longrightarrow> product_state N fs' (fold apply_gate gs psi)"
proof (induction gs arbitrary: fs psi)
  case Nil
  then show ?case by simp
next
  case (Cons g gs)
  then obtain fs1 where g: "factor_gate N g fs = Some fs1" and r: "factor_run N gs fs1 = Some fs'"
    by (auto split: option.splits)
  have "product_state N fs1 (apply_gate g psi)"
    using g Cons.prems(2) by (rule factor_gate_sound)
  with r have "product_state N fs' (fold apply_gate gs (apply_gate g psi))"
    by (rule Cons.IH)
  then show ?case by simp
qed

lemma product_state_zero: "product_state N (\<lambda>i. (1, 0)) (zero_state N)"
  unfolding product_state_def
proof (intro allI impI)
  fix b :: "bool list" assume len: "length b = N"
  show "zero_state N b = (\<Prod>i<N. factor_at (1, 0) (b ! i))"
  proof (cases "b = replicate N False")
    case True
    then show ?thesis by (simp add: zero_state_def factor_at_def)
  next
    case False
    then obtain i where "i < N" "b ! i"
      using len by (auto simp: list_eq_iff_nth_eq)
    then have "\<exists>i\<in>{..<N}. factor_at (1, 0) (b ! i) = 0"
      by (auto simp: factor_at_def)
    then have "(\<Prod>i<N. factor_at (1, 0) (b ! i)) = 0" by simp
    then show ?thesis using False by (simp add: zero_state_def)
  qed
qed

subsection \<open>The factors of the composed circuit\<close>

lemma factor_run_append:
  "factor_run N (gs @ hs) fs =
     (case factor_run N gs fs of None \<Rightarrow> None | Some fs' \<Rightarrow> factor_run N hs fs')"
  by (induction gs arbitrary: fs) (auto split: option.splits)

lemma factor_run_h_loop:
  "k \<le> N \<Longrightarrow>
   factor_run N (map HGate [0..<k]) fs =
     Some (\<lambda>i. if i < k then (fst (fs i) + snd (fs i), fst (fs i) - snd (fs i)) else fs i)"
proof (induction k)
  case 0
  show ?case by simp
next
  case (Suc k)
  then show ?case
    by (auto simp: factor_run_append fun_eq_iff less_Suc_eq)
qed

lemma factor_run_x_loop:
  "k \<le> N \<Longrightarrow>
   factor_run N (map XGate (filter P [0..<k])) fs =
     Some (\<lambda>i. if i < k \<and> P i then (snd (fs i), fst (fs i)) else fs i)"
proof (induction k)
  case 0
  show ?case by simp
next
  case (Suc k)
  then show ?case
    by (auto simp: factor_run_append fun_eq_iff less_Suc_eq)
qed

lemma factor_run_cx_loop:
  "k \<le> n \<Longrightarrow> n < N \<Longrightarrow> snd (fs n) = - fst (fs n) \<Longrightarrow>
   factor_run N (map (\<lambda>i. CXGate i n) [0..<k]) fs =
     Some (\<lambda>i. if i < k then (fst (fs i), - snd (fs i)) else fs i)"
proof (induction k)
  case 0
  show ?case by simp
next
  case (Suc k)
  then show ?case
    by (auto simp: factor_run_append fun_eq_iff less_Suc_eq)
qed

lemma factor_run_measure_loop:
  "factor_run N (map (\<lambda>i. Measure i i) qs) fs = Some fs"
  by (induction qs) simp_all

text \<open>An amplitude of a product state vanishes where one factor does.\<close>

lemma product_state_zero_factor:
  assumes "product_state N fs psi" and "length b = N" and "j < N"
    and "factor_at (fs j) (b ! j) = 0"
  shows "psi b = 0"
proof -
  have "\<exists>i\<in>{..<N}. factor_at (fs i) (b ! i) = 0" using assms(3,4) by auto
  then have "(\<Prod>i<N. factor_at (fs i) (b ! i)) = 0" by simp
  then show ?thesis using assms(1,2) by (simp add: product_state_def)
qed

lemma factor_run_prepare:
  "factor_run (Suc n) (map HGate [0..<n] @ [XGate n, HGate n, Barrier ws]) (\<lambda>i. (1, 0))
     = Some (prepared n)"
  by (auto simp: factor_run_append factor_run_h_loop prepared_def fun_eq_iff)

lemma factor_run_finish:
  "factor_run (Suc n)
     ([Barrier ws] @ map HGate [0..<n] @ [Barrier ws'] @ map (\<lambda>i. Measure i i) [0..<n]) fs
     = Some (\<lambda>i. if i < n then (fst (fs i) + snd (fs i), fst (fs i) - snd (fs i)) else fs i)"
  by (simp add: factor_run_append factor_run_h_loop factor_run_measure_loop)

lemma final_amplitudes_product:
  assumes "list_all (wires_within (Suc n) (num_clbits ob)) (data ob)"
    and "factor_run (Suc n) (data ob) (prepared n) = Some fs"
  shows "product_state (Suc n)
           (\<lambda>i. if i < n then (fst (fs i) + snd (fs i), fst (fs i) - snd (fs i)) else fs i)
           (final_amplitudes \<lparr>name = nm, num_qubits = Suc n, num_clbits = nc,
                               data = composed_data ob n\<rparr>)"
proof -
  let ?c = "\<lparr>name = nm, num_qubits = Suc n, num_clbits = nc, data = composed_data ob n\<rparr>"
  define pre where "pre = map HGate [0..<n] @ [XGate n, HGate n, Barrier [0..<Suc n]]"
  define post where "post = [Barrier [0..<Suc n]] @ map HGate [0..<n] @ [Barrier [0..<Suc n]]
                 @ map (\<lambda>i. Measure i i) [0..<n]"
  define fin where
    "fin = (\<lambda>i. if i < n then (fst (fs i) + snd (fs i), fst (fs i) - snd (fs i)) else fs i)"
  have "map (remap [0..<Suc n] [0..<num_clbits ob]) (data ob) = data ob"
    using assms(1) by (intro map_idI) (simp add: list_all_iff remap_identity del: upt_Suc)
  then have d: "decompose ?c = pre @ data ob @ post"
    unfolding decompose_composed pre_def post_def by (simp del: upt_Suc)
  have p1: "factor_run (Suc n) pre (\<lambda>i. (1, 0)) = Some (prepared n)"
    unfolding pre_def by (rule factor_run_prepare)
  have p3: "factor_run (Suc n) post fs = Some fin"
    unfolding post_def fin_def by (rule factor_run_finish)
  have "factor_run (Suc n) (pre @ data ob @ post) (\<lambda>i. (1, 0)) = Some fin"
    by (simp add: factor_run_append p1 assms(2) p3)
  then have "product_state (Suc n) fin (fold apply_gate (pre @ data ob @ post) (zero_state (Suc n)))"
    using product_state_zero[of "Suc n"] by (rule factor_run_sound)
  then show ?thesis
    unfolding final_amplitudes_def d fin_def by simp
qed

lemma factor_run_balanced:
  "factor_run (Suc n) (balanced_gates n m) (prepared n)
     = Some (\<lambda>i. if i < n then (if bit m i then (- 1, 1) else (1, - 1)) else prepared n i)"
proof -
  define f1 where
    "f1 = (\<lambda>i. if i < n \<and> bit m i then (snd (prepared n i), fst (prepared n i)) else prepared n i)"
  define f2 where "f2 = (\<lambda>i. if i < n then (fst (f1 i), - snd (f1 i)) else f1 i)"
  define f3 where "f3 = (\<lambda>i. if i < n \<and> bit m i then (snd (f2 i), fst (f2 i)) else f2 i)"
  define xs where "xs = map XGate (filter (bit m) [0..<n])"
  define cs where "cs = map (\<lambda>i. CXGate i n) [0..<n]"
  have s1: "factor_run (Suc n) xs (prepared n) = Some f1"
    unfolding xs_def f1_def by (rule factor_run_x_loop) simp
  have "snd (f1 n) = - fst (f1 n)" by (simp add: f1_def prepared_def)
  then have s2: "factor_run (Suc n) cs f1 = Some f2"
    unfolding cs_def f2_def by (intro factor_run_cx_loop) simp_all
  have s3: "factor_run (Suc n) xs f2 = Some f3"
    unfolding xs_def f3_def by (rule factor_run_x_loop) simp
  have "f3 = (\<lambda>i. if i < n then (if bit m i then (- 1, 1) else (1, - 1)) else prepared n i)"
    by (auto simp: fun_eq_iff f3_def f2_def f1_def prepared_def)
  moreover have "balanced_gates n m = xs @ cs @ xs"
    by (simp add: balanced_gates_def xs_def cs_def)
  ultimately show ?thesis
    by (simp add: factor_run_append s1 s2 s3)
qed

lemma factor_run_constant:
  "factor_run (Suc n) (if odd pick then [XGate n] else []) (prepared n)
     = Some (if odd pick then (prepared n)(n := (- 1, 1)) else prepared n)"
  by (simp add: prepared_def)

subsection \<open>Measurements and probabilities\<close>

lemma measured_append: "measured (gs @ hs) = measured gs @ measured hs"
  by (induction gs rule: measured.induct) simp_all

lemma measured_none: "\<not> list_ex is_measure gs \<Longrightarrow> measured gs = []"
  by (induction gs rule: measured.induct) simp_all

lemma measured_h_loop: "measured (map HGate qs) = []"
  by (induction qs) simp_all

lemma measured_measure_loop: "measured (map (\<lambda>i. Measure i i) qs) = map (\<lambda>i. (i, i)) qs"
  by (induction qs) simp_all

lemma agrees_diagonal:
  "agrees (map (\<lambda>i. (i, i)) [0..<n]) cl b = (\<forall>i<n. b ! i = cl ! i)"
  by (auto simp: agrees_def list_all_iff)

lemma sum_list_all_zero:
  fixes f :: "'a \<Rightarrow> int"
  shows "(\<And>x. x \<in> set xs \<Longrightarrow> f x = 0) \<Longrightarrow> sum_list (map f xs) = 0"
  by (induction xs) simp_all

lemma length_basis_state: "b \<in> set (basis_states n) \<Longrightarrow> length b = n"
  by (auto simp: basis_states_def set_n_lists)

lemma probability_zero:
  assumes "\<And>b. length b = num_qubits c \<Longrightarrow> agrees (measured (decompose c)) cl b
             \<Longrightarrow> final_amplitudes c b = 0"
  shows "probability c cl = 0"
proof -
  have "(\<Sum>b\<leftarrow>filter (agrees (measured (decompose c)) cl) (basis_states (num_qubits c)).
           (final_amplitudes c b)\<^sup>2) = 0"
    by (rule sum_list_all_zero) (simp add: assms length_basis_state)
  then show ?thesis by (simp add: probability_def Let_def)
qed

lemma measured_composed:
  assumes "list_all (wires_within (Suc n) (num_clbits ob)) (data ob)"
    and "\<not> list_ex is_measure (data ob)"
  shows "measured (decompose \<lparr>name = nm, num_qubits = nq, num_clbits = nc,
                              data = composed_data ob n\<rparr>)
           = map (\<lambda>i. (i, i)) [0..<n]"
proof -
  have "map (remap [0..<Suc n] [0..<num_clbits ob]) (data ob) = data ob"
    using assms(1) by (intro map_idI) (simp add: list_all_iff remap_identity del: upt_Suc)
  then show ?thesis
    unfolding decompose_composed
    by (simp add: measured_append measured_h_loop measured_measure_loop
        measured_none[OF assms(2)] del: upt_Suc)
qed

text \<open>
  An outcome has probability 0 when, on some input wire, the factor of the final state at
  the measured value vanishes.
\<close>

lemma probability_zero_composed:
  assumes w: "list_all (wires_within (Suc n) (num_clbits ob)) (data ob)"
    and nm: "\<not> list_ex is_measure (data ob)"
    and run: "factor_run (Suc n) (data ob) (prepared n) = Some fs"
    and j: "j < n"
    and z: "factor_at (fst (fs j) + snd (fs j), fst (fs j) - snd (fs j)) (cl ! j) = 0"
  shows "probability \<lparr>name = nm', num_qubits = Suc n, num_clbits = n,
                      data = composed_data ob n\<rparr> cl = 0"
proof (rule probability_zero)
  let ?c = "\<lparr>name = nm', num_qubits = Suc n, num_clbits = n, data = composed_data ob n\<rparr>"
  let ?fin = "\<lambda>i. if i < n then (fst (fs i) + snd (fs i), fst (fs i) - snd (fs i)) else fs i"
  fix b :: "bool list"
  assume len: "length b = num_qubits ?c" and ag: "agrees (measured (decompose ?c)) cl b"
  have m: "measured (decompose ?c) = map (\<lambda>i. (i, i)) [0..<n]"
    by (rule measured_composed[OF w nm])
  have "\<forall>i<n. b ! i = cl ! i"
    using ag unfolding m agrees_diagonal .
  then have bj: "b ! j = cl ! j" using j by blast
  have fj: "?fin j = (fst (fs j) + snd (fs j), fst (fs j) - snd (fs j))"
    using j by simp
  have f0: "factor_at (?fin j) (b ! j) = 0"
    unfolding fj bj by (rule z)
  have ps: "product_state (Suc n) ?fin (final_amplitudes ?c)"
    using w run by (rule final_amplitudes_product)
  have lb: "length b = Suc n" using len by simp
  have js: "j < Suc n" using j by simp
  show "final_amplitudes ?c b = 0"
    using ps lb js f0 by (rule product_state_zero_factor)
qed

lemma balanced_gates_wires:
  "list_all (wires_within (Suc n) nc) (balanced_gates n m)"
  by (auto simp: balanced_gates_def list_all_iff)

lemma balanced_gates_no_measure: "\<not> list_ex is_measure (balanced_gates n m)"
  by (auto simp: balanced_gates_def list_ex_iff)

lemma key_bits_zeros: "key_bits (replicate n CHR ''0'') = replicate n False"
  by (simp add: key_bits_def)

lemma key_without_one:
  assumes "list_all (\<lambda>ch. ch = CHR ''0'' \<or> ch = CHR ''1'') key"
    and "\<And>j. j < length key \<Longrightarrow> \<not> key_bits key ! j"
  shows "key = replicate (length key) CHR ''0''"
proof -
  have "ch = CHR ''0''" if "ch \<in> set key" for ch
  proof (rule ccontr)
    assume "ch \<noteq> CHR ''0''"
    then have "ch = CHR ''1''" using assms(1) that by (auto simp: list_all_iff)
    then have "True \<in> set (key_bits key)" using that by (auto simp: key_bits_def)
    then obtain j where "j < length (key_bits key)" "key_bits key ! j"
      by (auto simp: in_set_conv_nth)
    then show False using assms(2) by (simp add: key_bits_def)
  qed
  then show ?thesis by (metis replicate_length_same)
qed

subsection \<open>Outcomes of positive probability\<close>

lemma sum_list_pos_member:
  fixes f :: "'a \<Rightarrow> int"
  assumes "\<And>y. y \<in> set xs \<Longrightarrow> 0 \<le> f y" and "x \<in> set xs" and "0 < f x"
  shows "0 < sum_list (map f xs)"
  using assms
proof (induction xs)
  case Nil
  then show ?case by simp
next
  case (Cons y ys)
  have nn: "0 \<le> sum_list (map f ys)"
    using Cons.prems(1) by (intro sum_list_nonneg) auto
  show ?case
  proof (cases "x = y")
    case True
    then show ?thesis using Cons.prems(3) nn by simp
  next
    case False
    then have "x \<in> set ys" using Cons.prems(2) by simp
    then have "0 < sum_list (map f ys)"
      using Cons.prems(1,3) by (intro Cons.IH) simp_all
    moreover have "0 \<le> f y" using Cons.prems(1) by simp
    ultimately show ?thesis by simp
  qed
qed

lemma basis_state_member: "length b = n \<Longrightarrow> b \<in> set (basis_states n)"
  by (auto simp: basis_states_def set_n_lists)

lemma probability_positive:
  assumes "length cl = num_clbits c"
    and "list_all (\<lambda>i. i \<in> set (map snd (measured (decompose c))) \<or> cl ! i = False)
           [0..<num_clbits c]"
    and "length b = num_qubits c"
    and "agrees (measured (decompose c)) cl b"
    and "final_amplitudes c b \<noteq> 0"
  shows "0 < probability c cl"
proof -
  let ?xs = "filter (agrees (measured (decompose c)) cl) (basis_states (num_qubits c))"
  have "b \<in> set ?xs"
    using assms(3,4) by (simp add: basis_state_member)
  moreover have "0 < (final_amplitudes c b)\<^sup>2" using assms(5) by simp
  ultimately have "0 < (\<Sum>b\<leftarrow>?xs. (final_amplitudes c b)\<^sup>2)"
    by (intro sum_list_pos_member[of ?xs _ b]) simp_all
  then have "0 < real_of_int (\<Sum>b\<leftarrow>?xs. (final_amplitudes c b)\<^sup>2)"
    by simp
  then have pos: "0 < real_of_int (\<Sum>b\<leftarrow>?xs. (final_amplitudes c b)\<^sup>2)
                   / 2 ^ hadamard_count (decompose c)"
    by simp
  have cond: "length cl = num_clbits c
      \<and> list_all (\<lambda>i. i \<in> set (map snd (measured (decompose c))) \<or> cl ! i = False)
            [0..<num_clbits c]"
    using assms(1,2) by (rule conjI)
  have eq: "probability c cl
      = real_of_int (\<Sum>b\<leftarrow>?xs. (final_amplitudes c b)\<^sup>2)
          / 2 ^ hadamard_count (decompose c)"
    unfolding probability_def Let_def using cond by (rule if_P)
  show ?thesis unfolding eq by (rule pos)
qed

lemma product_state_nonzero:
  assumes "product_state N fs psi" and "length b = N"
    and "\<And>i. i < N \<Longrightarrow> factor_at (fs i) (b ! i) \<noteq> 0"
  shows "psi b \<noteq> 0"
proof -
  have "(\<Prod>i<N. factor_at (fs i) (b ! i)) \<noteq> 0"
    using assms(3) by simp
  then show ?thesis using assms(1,2) by (simp add: product_state_def)
qed

text \<open>
  An outcome has a positive probability when no factor of the final state vanishes at
  the measured values, for some value of the ancilla.
\<close>

lemma probability_positive_composed:
  assumes w: "list_all (wires_within (Suc n) (num_clbits ob)) (data ob)"
    and nm: "\<not> list_ex is_measure (data ob)"
    and run: "factor_run (Suc n) (data ob) (prepared n) = Some fs"
    and len: "length cl = n"
    and nz: "\<And>j. j < n \<Longrightarrow>
               factor_at (fst (fs j) + snd (fs j), fst (fs j) - snd (fs j)) (cl ! j) \<noteq> 0"
    and anc: "factor_at (fs n) a \<noteq> 0"
  shows "0 < probability \<lparr>name = nm', num_qubits = Suc n, num_clbits = n,
                          data = composed_data ob n\<rparr> cl"
proof (rule probability_positive[where b = "cl @ [a]"])
  let ?c = "\<lparr>name = nm', num_qubits = Suc n, num_clbits = n, data = composed_data ob n\<rparr>"
  let ?fin = "\<lambda>i. if i < n then (fst (fs i) + snd (fs i), fst (fs i) - snd (fs i)) else fs i"
  have m: "measured (decompose ?c) = map (\<lambda>i. (i, i)) [0..<n]"
    by (rule measured_composed[OF w nm])
  show "length cl = num_clbits ?c" using len by simp
  show "list_all (\<lambda>i. i \<in> set (map snd (measured (decompose ?c))) \<or> cl ! i = False)
          [0..<num_clbits ?c]"
    unfolding m by (simp add: list_all_iff image_iff)
  show "length (cl @ [a]) = num_qubits ?c" using len by simp
  show "agrees (measured (decompose ?c)) cl (cl @ [a])"
    unfolding m agrees_diagonal using len by (simp add: nth_append)
  have ps: "product_state (Suc n) ?fin (final_amplitudes ?c)"
    using w run by (rule final_amplitudes_product)
  have nzall: "factor_at (?fin i) ((cl @ [a]) ! i) \<noteq> 0" if i: "i < Suc n" for i
  proof (cases "i < n")
    case True
    have e1: "(cl @ [a]) ! i = cl ! i" using True len by (simp add: nth_append)
    have e2: "?fin i = (fst (fs i) + snd (fs i), fst (fs i) - snd (fs i))"
      using True by simp
    show ?thesis unfolding e1 e2 by (rule nz[OF True])
  next
    case False
    then have n: "i = n" using i by simp
    have e1: "(cl @ [a]) ! n = a" using len by (simp add: nth_append)
    have e2: "?fin n = fs n" by simp
    show ?thesis unfolding n e1 e2 by (rule anc)
  qed
  have lb: "length (cl @ [a]) = Suc n" using len by simp
  show "final_amplitudes ?c (cl @ [a]) \<noteq> 0"
    using ps lb nzall by (rule product_state_nonzero)
qed

lemma list_all_replicate: "P x \<Longrightarrow> list_all P (replicate n x)"
  by (induction n) simp_all

lemma key_bits_ones: "key_bits (replicate n CHR ''1'') = replicate n True"
  by (simp add: key_bits_def)

lemma ideal_counts_single:
  assumes "length key = num_clbits c"
    and "list_all (\<lambda>ch. ch = CHR ''0'' \<or> ch = CHR ''1'') key"
    and "0 < probability c (key_bits key)" and "0 < k"
  shows "ideal_counts c [(key, k)]"
  using assms by (simp add: ideal_counts_def)

lemma constant_zeros_possible:
  "ideal_counts \<lparr>name = nm, num_qubits = Suc n, num_clbits = n,
            data = composed_data
              \<lparr>name = nm', num_qubits = Suc n, num_clbits = 0,
               data = (if odd pick then [XGate n] else [])\<rparr> n\<rparr>
     [(replicate n CHR ''0'', Suc k)]"
proof (rule ideal_counts_single)
  let ?ob = "\<lparr>name = nm', num_qubits = Suc n, num_clbits = 0,
              data = (if odd pick then [XGate n] else [])\<rparr>"
  let ?c = "\<lparr>name = nm, num_qubits = Suc n, num_clbits = n, data = composed_data ?ob n\<rparr>"
  define fs where "fs = (if odd pick then (prepared n)(n := (- 1, 1)) else prepared n)"
  have w: "list_all (wires_within (Suc n) (num_clbits ?ob)) (data ?ob)" by simp
  have nomeas: "\<not> list_ex is_measure (data ?ob)" by simp
  have run: "factor_run (Suc n) (data ?ob) (prepared n) = Some fs"
    unfolding fs_def by (simp add: factor_run_constant)
  have nz: "factor_at (fst (fs j) + snd (fs j), fst (fs j) - snd (fs j))
              (replicate n False ! j) \<noteq> 0" if "j < n" for j
    using that by (simp add: fs_def prepared_def factor_at_def)
  have anc: "factor_at (fs n) False \<noteq> 0"
    by (simp add: fs_def prepared_def factor_at_def)
  have "0 < probability ?c (replicate n False)"
    using w nomeas run _ nz anc by (rule probability_positive_composed) simp
  then show "0 < probability ?c (key_bits (replicate n CHR ''0''))"
    unfolding key_bits_zeros .
qed (simp_all add: list_all_replicate)

lemma balanced_ones_possible:
  "ideal_counts \<lparr>name = nm, num_qubits = Suc n, num_clbits = n,
            data = composed_data
              \<lparr>name = nm', num_qubits = Suc n, num_clbits = n, data = balanced_gates n m\<rparr> n\<rparr>
     [(replicate n CHR ''1'', Suc k)]"
proof (rule ideal_counts_single)
  let ?ob = "\<lparr>name = nm', num_qubits = Suc n, num_clbits = n, data = balanced_gates n m\<rparr>"
  let ?c = "\<lparr>name = nm, num_qubits = Suc n, num_clbits = n, data = composed_data ?ob n\<rparr>"
  define fs where
    "fs = (\<lambda>i. if i < n then (if bit m i then (- 1, 1) else (1, - 1)) else prepared n i)"
  have w: "list_all (wires_within (Suc n) (num_clbits ?ob)) (data ?ob)"
    by (simp add: balanced_gates_wires)
  have nomeas: "\<not> list_ex is_measure (data ?ob)"
    by (simp add: balanced_gates_no_measure)
  have run: "factor_run (Suc n) (data ?ob) (prepared n) = Some fs"
    unfolding fs_def by (simp add: factor_run_balanced)
  have nz: "factor_at (fst (fs j) + snd (fs j), fst (fs j) - snd (fs j))
              (replicate n True ! j) \<noteq> 0" if "j < n" for j
    using that by (simp add: fs_def factor_at_def)
  have anc: "factor_at (fs n) False \<noteq> 0"
    by (simp add: fs_def prepared_def factor_at_def)
  have "0 < probability ?c (replicate n True)"
    using w nomeas run _ nz anc by (rule probability_positive_composed) simp
  then show "0 < probability ?c (key_bits (replicate n CHR ''1''))"
    unfolding key_bits_ones .
qed (simp_all add: list_all_replicate)

subsection \<open>The verdict on an ideal run\<close>

text \<open>What \<^verbatim>\<open>simulate\<close> returns on a composed circuit.\<close>

lemma simulate_composed:
  assumes "num_qubits ob = Suc n" and "num_clbits ob \<le> n"
  shows "simulate backend ob =
           Inr (classify (int n)
                 (backend \<lparr>name = ''circuit'', num_qubits = Suc n, num_clbits = n,
                           data = composed_data ob n\<rparr>))"
  by (simp add: simulate_def construct_the_circuit_eq[OF assms])

lemma ideal_counts_key:
  assumes "ideal_counts c answer" and "key \<in> set (map fst answer)"
  shows "length key = num_clbits c
       \<and> list_all (\<lambda>ch. ch = CHR ''0'' \<or> ch = CHR ''1'') key
       \<and> 0 < probability c (key_bits key)"
proof -
  from assms(2) obtain k where k: "(key, k) \<in> set answer" by force
  from assms(1) have "\<forall>p \<in> set answer. case p of (key, k) \<Rightarrow>
      0 < k \<and> length key = num_clbits c
      \<and> list_all (\<lambda>ch. ch = CHR ''0'' \<or> ch = CHR ''1'') key
      \<and> 0 < probability c (key_bits key)"
    unfolding ideal_counts_def list_all_iff by blast
  from bspec[OF this k] show ?thesis by simp
qed

lemma ideal_counts_has_key:
  "ideal_counts c answer \<Longrightarrow> \<exists>key. key \<in> set (map fst answer)"
  by (cases answer) (auto simp: ideal_counts_def)

text \<open>
  Around an oracle that leaves every input wire with opposite factors, the outcome of
  zeros has probability 0; around one that leaves every input wire with equal factors,
  every other outcome has.
\<close>

lemma balanced_never_zeros:
  assumes "0 < n"
  shows "probability \<lparr>name = nm, num_qubits = Suc n, num_clbits = n,
            data = composed_data
              \<lparr>name = nm', num_qubits = Suc n, num_clbits = n, data = balanced_gates n m\<rparr> n\<rparr>
           (replicate n False) = 0"
proof -
  let ?ob = "\<lparr>name = nm', num_qubits = Suc n, num_clbits = n, data = balanced_gates n m\<rparr>"
  define fs where
    "fs = (\<lambda>i. if i < n then (if bit m i then (- 1, 1) else (1, - 1)) else prepared n i)"
  have w: "list_all (wires_within (Suc n) (num_clbits ?ob)) (data ?ob)"
    by (simp add: balanced_gates_wires)
  have nomeas: "\<not> list_ex is_measure (data ?ob)"
    by (simp add: balanced_gates_no_measure)
  have run: "factor_run (Suc n) (data ?ob) (prepared n) = Some fs"
    unfolding fs_def by (simp add: factor_run_balanced)
  have z: "factor_at (fst (fs 0) + snd (fs 0), fst (fs 0) - snd (fs 0)) (replicate n False ! 0) = 0"
    using assms by (simp add: fs_def factor_at_def)
  show ?thesis
    using w nomeas run assms z by (rule probability_zero_composed)
qed

lemma constant_only_zeros:
  assumes "j < n" and "cl ! j"
  shows "probability \<lparr>name = nm, num_qubits = Suc n, num_clbits = n,
            data = composed_data
              \<lparr>name = nm', num_qubits = Suc n, num_clbits = 0,
               data = (if odd pick then [XGate n] else [])\<rparr> n\<rparr>
           cl = 0"
proof -
  let ?ob = "\<lparr>name = nm', num_qubits = Suc n, num_clbits = 0,
              data = (if odd pick then [XGate n] else [])\<rparr>"
  define fs where "fs = (if odd pick then (prepared n)(n := (- 1, 1)) else prepared n)"
  have w: "list_all (wires_within (Suc n) (num_clbits ?ob)) (data ?ob)" by simp
  have nomeas: "\<not> list_ex is_measure (data ?ob)" by simp
  have run: "factor_run (Suc n) (data ?ob) (prepared n) = Some fs"
    unfolding fs_def by (simp add: factor_run_constant)
  have "fs j = (1, 1)" using assms(1) by (simp add: fs_def prepared_def)
  then have z: "factor_at (fst (fs j) + snd (fs j), fst (fs j) - snd (fs j)) (cl ! j) = 0"
    using assms(2) by (simp add: factor_at_def)
  show ?thesis
    using w nomeas run assms(1) z by (rule probability_zero_composed)
qed

lemma balanced_verdict_for_mask:
  assumes "0 < n" and "m < 2 ^ n"
  shows "\<exists>oracle circuit.
           balanced_oracle_for (int n) (int m) = Inr oracle
         \<and> construct_the_circuit oracle = Inr circuit
         \<and> (\<forall>backend. ideal_counts circuit (backend circuit)
               \<longrightarrow> simulate backend oracle = Inr [(''result'', ''Balanced'')])
         \<and> ideal_counts circuit [(replicate n CHR ''1'', 1)]"
proof -
  let ?ob = "\<lparr>name = ''BalancedOracle'', num_qubits = Suc n, num_clbits = n,
              data = balanced_gates n m\<rparr>"
  let ?c = "\<lparr>name = ''circuit'', num_qubits = Suc n, num_clbits = n,
             data = composed_data ?ob n\<rparr>"
  have o: "balanced_oracle_for (int n) (int m) = Inr ?ob"
    using assms(2,1) by (rule balanced_oracle_for_eq)
  have c: "construct_the_circuit ?ob = Inr ?c"
    by (rule construct_the_circuit_eq) simp_all
  have v: "simulate backend ?ob = Inr [(''result'', ''Balanced'')]"
    if ideal: "ideal_counts ?c (backend ?c)" for backend
  proof -
    have "replicate n CHR ''0'' \<notin> set (map fst (backend ?c))"
    proof
      assume "replicate n CHR ''0'' \<in> set (map fst (backend ?c))"
      with ideal have "0 < probability ?c (key_bits (replicate n CHR ''0''))"
        using ideal_counts_key by blast
      then show False
        unfolding key_bits_zeros balanced_never_zeros[OF assms(1)] by simp
    qed
    then have "classify (int n) (backend ?c) = [(''result'', ''Balanced'')]"
      by (simp add: classify_def)
    moreover have "simulate backend ?ob = Inr (classify (int n) (backend ?c))"
      by (rule simulate_composed) simp_all
    ultimately show ?thesis by simp
  qed
  have p: "ideal_counts ?c [(replicate n CHR ''1'', 1)]"
    using balanced_ones_possible[of "''circuit''" n "''BalancedOracle''" m 0] by simp
  from o c v p show ?thesis by blast
qed

section \<open>The classifier\<close>

text \<open>
  C3. For every \<open>n \<ge> 1\<close> and every non-empty distribution of outcomes, the classifier
  answers Constant exactly when the string of \<open>n\<close> zeros is one of the keys, whatever its
  count and whatever the other keys, and Balanced otherwise.
\<close>

theorem classify_iff_all_zero_key:
  assumes "1 \<le> n" and "answer \<noteq> []"
  shows "(classify n answer = [(''result'', ''Constant'')]
            \<longleftrightarrow> replicate (nat n) CHR ''0'' \<in> set (map fst answer))
       \<and> (classify n answer = [(''result'', ''Balanced'')]
            \<longleftrightarrow> replicate (nat n) CHR ''0'' \<notin> set (map fst answer))"
  by (simp add: classify_def)

theorem classify_iff_all_zero_key_witness:
  "(1::int) \<le> 2 \<and> [(''10'', 1::nat), (''00'', 3)] \<noteq> []
   \<and> classify 2 [(''10'', 1), (''00'', 3)] = [(''result'', ''Constant'')]
   \<and> classify 2 [(''10'', 1), (''01'', 3)] = [(''result'', ''Balanced'')]"
proof -
  have h: "(1::int) \<le> 2" by simp
  have r: "replicate 2 CHR ''0'' = ''00''" by (simp add: numeral_2_eq_2)
  show ?thesis
    using classify_iff_all_zero_key[OF h, of "[(''10'', 1), (''00'', 3)]"]
      classify_iff_all_zero_key[OF h, of "[(''10'', 1), (''01'', 3)]"]
    by (simp add: r)
qed

text \<open>
  C9 as stated (an empty distribution makes the classifier fail) does not hold: the
  decision only asks whether the key of zeros is present, so on an empty dictionary
  \<^verbatim>\<open>simulate\<close> returns Balanced.
\<close>

theorem classify_empty_counterexample:
  "classify 2 [] = [(''result'', ''Balanced'')]
   \<and> simulate (\<lambda>circuit. [])
        \<lparr>name = ''ConstantOracle'', num_qubits = 3, num_clbits = 0, data = []\<rparr>
       = Inr [(''result'', ''Balanced'')]"
proof -
  let ?ob = "\<lparr>name = ''ConstantOracle'', num_qubits = 3, num_clbits = 0, data = []\<rparr>
               :: Instruction"
  have "\<exists>c. construct_the_circuit ?ob = Inr c"
    using construct_the_circuit_eq[of ?ob 2] by simp
  then show ?thesis by (auto simp: simulate_def classify_def)
qed

text \<open>
  C9, amended. For every \<open>n\<close> (so for every \<open>n \<ge> 1\<close>) the classifier answers Balanced on
  an empty distribution, and \<^verbatim>\<open>simulate\<close> returns that answer, without an error, for
  every oracle the composer accepts when the backend reports no outcome.
\<close>

theorem classify_empty_is_balanced:
  assumes "num_qubits oracle_block = Suc n" and "num_clbits oracle_block \<le> n"
  shows "classify k [] = [(''result'', ''Balanced'')]
       \<and> simulate (\<lambda>circuit. []) oracle_block = Inr [(''result'', ''Balanced'')]"
proof -
  have "\<exists>c. construct_the_circuit oracle_block = Inr c"
    using construct_the_circuit_eq[OF assms] by simp
  then show ?thesis by (auto simp: simulate_def classify_def)
qed

theorem classify_empty_is_balanced_witness:
  "classify 2 [] = [(''result'', ''Balanced'')]
   \<and> simulate (\<lambda>circuit. [])
        \<lparr>name = ''BalancedOracle'', num_qubits = Suc 2, num_clbits = 2,
         data = [CXGate 0 2, CXGate 1 2]\<rparr>
       = Inr [(''result'', ''Balanced'')]"
  using classify_empty_is_balanced[of
      "\<lparr>name = ''BalancedOracle'', num_qubits = Suc 2, num_clbits = 2,
        data = [CXGate 0 2, CXGate 1 2]\<rparr>" 2 2]
  by simp

section \<open>The drawn mask and the arguments below one\<close>



text \<open>
  C8 as stated (both synthesisers fail for \<open>n < 1\<close>) does not hold: the constant
  synthesiser does not look at \<open>n\<close>, and for \<open>n = 0\<close> it returns an oracle on the ancilla
  alone.
\<close>

theorem constant_oracle_zero_counterexample:
  "give_a_constant_oracle 0 0 =
     Inr \<lparr>name = ''ConstantOracle'', num_qubits = 1, num_clbits = 0, data = []\<rparr>"
  using constant_oracle_eq[of 0 0] by simp

text \<open>
  C8, amended. For every \<open>n < 1\<close> the balanced synthesiser fails, with the
  \<^verbatim>\<open>ValueError\<close> of the draw from the empty range \<open>[1, 2 ^ n)\<close>, before it builds
  anything. The constant synthesiser has no check of \<open>n\<close>: for \<open>n = 0\<close> it succeeds for
  either coin and returns an oracle on one wire.
\<close>

theorem synthesis_below_one:
  assumes "n < 1"
  shows "give_a_balanced_oracle n pick = Inl ValueError
       \<and> give_a_constant_oracle 0 pick =
           Inr \<lparr>name = ''ConstantOracle'', num_qubits = 1, num_clbits = 0,
                data = (if odd pick then [XGate 0] else [])\<rparr>"
proof -
  have "two_to_the n \<le> 1" using assms by (simp add: two_to_the_def)
  then have "randint 1 (two_to_the n) pick = Inl ValueError" by (simp add: randint_def)
  then show ?thesis using constant_oracle_eq[of 0 pick]
    by (simp add: give_a_balanced_oracle_def)
qed

theorem synthesis_below_one_witness:
  "(0::int) < 1 \<and> give_a_balanced_oracle 0 5 = Inl ValueError
   \<and> give_a_balanced_oracle (- 2) 5 = Inl ValueError
   \<and> give_a_constant_oracle 0 5 =
       Inr \<lparr>name = ''ConstantOracle'', num_qubits = 1, num_clbits = 0, data = [XGate 0]\<rparr>"
  using synthesis_below_one[of 0 5] synthesis_below_one[of "- 2" 5] by simp

section \<open>Composition\<close>

text \<open>
  C6. For every oracle on \<open>n + 1\<close> wires whose classical bits fit into \<open>n\<close>, the composer
  returns a circuit on the same \<open>n + 1\<close> wires with \<open>n\<close> classical bits (the oracle's
  number of input wires); its measurements are of input wire \<open>q < n\<close> into bit \<open>q\<close>, so
  never of the ancilla \<open>n\<close> (nor, once the oracle is expanded, when the oracle itself
  measures nothing); and the one instruction it holds is the supplied oracle, unchanged,
  on the wires \<open>0, \<dots>, n\<close>. The model is a function of the oracle's value: the caller's
  oracle is read and never written.
\<close>

theorem composition_structure:
  assumes "num_qubits oracle_block = Suc n" and "num_clbits oracle_block \<le> n"
  shows "\<exists>c. construct_the_circuit oracle_block = Inr c
           \<and> num_qubits c = num_qubits oracle_block \<and> num_qubits c = n + 1
           \<and> num_clbits c = n
           \<and> (\<forall>q b. Gate (Measure q b) \<in> set (data c) \<longrightarrow> q < n \<and> b = q)
           \<and> (\<not> list_ex is_measure (data oracle_block)
                \<longrightarrow> (\<forall>q b. Measure q b \<in> set (decompose c) \<longrightarrow> q < n \<and> b = q))
           \<and> Block oracle_block [0..<Suc n] [0..<num_clbits oracle_block] \<in> set (data c)
           \<and> (\<forall>inst qs cs. Block inst qs cs \<in> set (data c)
                \<longrightarrow> inst = oracle_block \<and> qs = [0..<Suc n])"
proof -
  let ?c = "\<lparr>name = ''circuit'', num_qubits = Suc n, num_clbits = n,
             data = composed_data oracle_block n\<rparr> :: QuantumCircuit"
  have c: "construct_the_circuit oracle_block = Inr ?c"
    using assms by (rule construct_the_circuit_eq)
  have m1: "\<forall>q b. Gate (Measure q b) \<in> set (data ?c) \<longrightarrow> q < n \<and> b = q"
    by (auto simp: composed_data_def)
  have m2: "\<forall>q b. Measure q b \<in> set (decompose ?c) \<longrightarrow> q < n \<and> b = q"
    if "\<not> list_ex is_measure (data oracle_block)"
  proof (intro allI impI)
    fix q b assume a: "Measure q b \<in> set (decompose ?c)"
    have "\<not> is_measure g" if "g \<in> set (data oracle_block)" for g
      using that \<open>\<not> list_ex is_measure (data oracle_block)\<close> by (auto simp: list_ex_iff)
    then have "Measure q b \<notin> remap [0..<Suc n] [0..<num_clbits oracle_block] ` set (data oracle_block)"
      by (metis (no_types, lifting) image_iff is_measure.simps(1) remap_is_measure)
    then show "q < n \<and> b = q"
      using a unfolding decompose_composed by (auto simp del: upt_Suc)
  qed
  have b1: "Block oracle_block [0..<Suc n] [0..<num_clbits oracle_block] \<in> set (data ?c)"
    by (simp add: composed_data_def del: upt_Suc)
  have b2: "\<forall>inst qs cs. Block inst qs cs \<in> set (data ?c)
              \<longrightarrow> inst = oracle_block \<and> qs = [0..<Suc n]"
    by (auto simp: composed_data_def simp del: upt_Suc)
  show ?thesis
    using c m1 m2 b1 b2 assms by (intro exI[of _ ?c]) simp
qed

theorem composition_structure_witness:
  "\<exists>c. construct_the_circuit
          \<lparr>name = ''BalancedOracle'', num_qubits = Suc 2, num_clbits = 2,
           data = [CXGate 0 2, CXGate 1 2]\<rparr> = Inr c
       \<and> num_qubits c = 3 \<and> num_clbits c = 2
       \<and> Measure 2 2 \<notin> set (decompose c)"
proof -
  let ?ob = "\<lparr>name = ''BalancedOracle'', num_qubits = Suc 2, num_clbits = 2,
              data = [CXGate 0 2, CXGate 1 2]\<rparr> :: Instruction"
  have h: "num_qubits ?ob = Suc 2" "num_clbits ?ob \<le> 2" by simp_all
  have "\<not> list_ex is_measure (data ?ob)" by simp
  with composition_structure[OF h] show ?thesis by fastforce
qed

text \<open>
  C7. For every oracle on \<open>n + 1\<close> wires the composed circuit holds, in this order: the
  superposition transform on each input wire \<open>0, \<dots>, n - 1\<close>; a flip, then the transform,
  on the ancilla \<open>n\<close>; a barrier; the oracle, as one instruction on the wires
  \<open>0, \<dots>, n\<close>; a barrier; the transform on each input wire again; a barrier; the
  measurement of each input wire \<open>i\<close> into classical bit \<open>i\<close>. Expanded, the instruction
  is the oracle's own gates, unchanged, when they name wires and bits of the oracle.
\<close>

theorem composition_stage_order:
  assumes "num_qubits oracle_block = Suc n" and "num_clbits oracle_block \<le> n"
  shows "\<exists>c. construct_the_circuit oracle_block = Inr c
           \<and> data c =
               map (\<lambda>q. Gate (HGate q)) [0..<n]
               @ [Gate (XGate n), Gate (HGate n)]
               @ [Gate (Barrier [0..<Suc n])]
               @ [Block oracle_block [0..<Suc n] [0..<num_clbits oracle_block]]
               @ [Gate (Barrier [0..<Suc n])]
               @ map (\<lambda>q. Gate (HGate q)) [0..<n]
               @ [Gate (Barrier [0..<Suc n])]
               @ map (\<lambda>i. Gate (Measure i i)) [0..<n]
           \<and> (list_all (wires_within (Suc n) (num_clbits oracle_block)) (data oracle_block)
                \<longrightarrow> decompose c =
                      map HGate [0..<n] @ [XGate n, HGate n] @ [Barrier [0..<Suc n]]
                      @ data oracle_block
                      @ [Barrier [0..<Suc n]] @ map HGate [0..<n] @ [Barrier [0..<Suc n]]
                      @ map (\<lambda>i. Measure i i) [0..<n])"
proof -
  let ?c = "\<lparr>name = ''circuit'', num_qubits = Suc n, num_clbits = n,
             data = composed_data oracle_block n\<rparr> :: QuantumCircuit"
  have c: "construct_the_circuit oracle_block = Inr ?c"
    using assms by (rule construct_the_circuit_eq)
  have dat: "data ?c =
               map (\<lambda>q. Gate (HGate q)) [0..<n]
               @ [Gate (XGate n), Gate (HGate n)]
               @ [Gate (Barrier [0..<Suc n])]
               @ [Block oracle_block [0..<Suc n] [0..<num_clbits oracle_block]]
               @ [Gate (Barrier [0..<Suc n])]
               @ map (\<lambda>q. Gate (HGate q)) [0..<n]
               @ [Gate (Barrier [0..<Suc n])]
               @ map (\<lambda>i. Gate (Measure i i)) [0..<n]"
    by (simp add: composed_data_def del: upt_Suc)
  have dec: "decompose ?c =
               map HGate [0..<n] @ [XGate n, HGate n] @ [Barrier [0..<Suc n]]
               @ data oracle_block
               @ [Barrier [0..<Suc n]] @ map HGate [0..<n] @ [Barrier [0..<Suc n]]
               @ map (\<lambda>i. Measure i i) [0..<n]"
    if w: "list_all (wires_within (Suc n) (num_clbits oracle_block)) (data oracle_block)"
  proof -
    have "map (remap [0..<Suc n] [0..<num_clbits oracle_block]) (data oracle_block)
            = data oracle_block"
      using w by (intro map_idI) (simp add: list_all_iff remap_identity del: upt_Suc)
    then show ?thesis
      unfolding decompose_composed by (simp del: upt_Suc)
  qed
  show ?thesis
    using c dat dec by (intro exI[of _ ?c]) blast
qed

theorem composition_stage_order_witness:
  "\<exists>c. construct_the_circuit
          \<lparr>name = ''BalancedOracle'', num_qubits = Suc 1, num_clbits = 1,
           data = [XGate 0, CXGate 0 1, XGate 0]\<rparr> = Inr c
       \<and> decompose c =
           [HGate 0, XGate 1, HGate 1, Barrier [0, 1], XGate 0, CXGate 0 1, XGate 0,
            Barrier [0, 1], HGate 0, Barrier [0, 1], Measure 0 0]"
proof -
  let ?ob = "\<lparr>name = ''BalancedOracle'', num_qubits = Suc 1, num_clbits = 1,
              data = [XGate 0, CXGate 0 1, XGate 0]\<rparr> :: Instruction"
  have h: "num_qubits ?ob = Suc 1" "num_clbits ?ob \<le> 1" by simp_all
  have "list_all (wires_within (Suc 1) (num_clbits ?ob)) (data ?ob)" by simp
  with composition_stage_order[OF h] show ?thesis by fastforce
qed

section \<open>The gates of the balanced oracle\<close>

text \<open>
  C4 as stated (a controlled flip exactly for the input wires whose mask bit is 1, each
  bracketed by its own pair of flips) does not hold: for \<open>n = 2\<close> and the mask 1 the
  oracle also holds the controlled flip of wire 1, whose mask bit is 0, and the flips of
  wire 0 stand around the whole block of controlled flips.
\<close>

theorem balanced_oracle_gates_counterexample:
  "randint 1 (two_to_the 2) 0 = Inr 1
   \<and> \<not> bit (1::nat) 1
   \<and> give_a_balanced_oracle 2 0 =
       Inr \<lparr>name = ''BalancedOracle'', num_qubits = 3, num_clbits = 2,
            data = [XGate 0, CXGate 0 2, CXGate 1 2, XGate 0]\<rparr>"
proof -
  have r: "randint 1 (two_to_the 2) 0 = Inr 1"
    by (simp add: randint_def two_to_the_def int64_min_def int64_max_def)
  have u: "[0..<2] = [0, Suc 0]" by (simp add: upt_rec numeral_2_eq_2)
  have "balanced_oracle_for (int 2) (int 1) =
          Inr \<lparr>name = ''BalancedOracle'', num_qubits = Suc 2, num_clbits = 2,
               data = balanced_gates 2 1\<rparr>"
    by (rule balanced_oracle_for_eq) simp_all
  moreover have "balanced_gates 2 1 = [XGate 0, CXGate 0 2, CXGate 1 2, XGate 0]"
    by (simp add: balanced_gates_def u bit_Suc bit_0)
  ultimately show ?thesis
    using r by (simp add: give_a_balanced_oracle_def bit_Suc)
qed

text \<open>
  C4, amended. For every \<open>n \<ge> 1\<close> and every mask the synthesiser draws, the mask \<open>m\<close>
  satisfies \<open>1 \<le> m < 2 ^ n\<close> and the synthesiser returns, on \<open>n + 1\<close> wires, the gates: a
  flip of each input wire \<open>i\<close> whose mask bit \<open>i\<close> is 1, in the wires' order; then a
  controlled flip of the ancilla \<open>n\<close> by every input wire \<open>0, \<dots>, n - 1\<close>, whatever the
  mask; then again a flip of each input wire whose mask bit is 1. A mask is drawn for
  every \<open>n\<close> up to 63.
\<close>

theorem balanced_oracle_gate_sequence:
  assumes "1 \<le> n"
  shows "(\<forall>r. randint 1 (two_to_the (int n)) pick = Inr r
            \<longrightarrow> (\<exists>m inst. r = int m \<and> 1 \<le> m \<and> m < 2 ^ n
                  \<and> give_a_balanced_oracle (int n) pick = Inr inst
                  \<and> num_qubits inst = n + 1
                  \<and> data inst =
                      map XGate (filter (bit m) [0..<n])
                      @ map (\<lambda>i. CXGate i n) [0..<n]
                      @ map XGate (filter (bit m) [0..<n])))
       \<and> (n \<le> 63 \<longrightarrow> (\<exists>r. randint 1 (two_to_the (int n)) pick = Inr r))"
proof (intro conjI allI impI)
  have t: "two_to_the (int n) = 2 ^ n" by (simp add: two_to_the_def)
  {
    fix r assume d: "randint 1 (two_to_the (int n)) pick = Inr r"
    from randint_result[OF d] have r: "1 \<le> r" "r < 2 ^ n" by (simp_all add: t)
    define m where "m = nat r"
    have m: "r = int m" "1 \<le> m" "m < 2 ^ n"
      using r by (simp_all add: m_def nat_less_iff)
    have "balanced_oracle_for (int n) (int m) =
            Inr \<lparr>name = ''BalancedOracle'', num_qubits = Suc n, num_clbits = n,
                 data = balanced_gates n m\<rparr>"
      using m assms by (intro balanced_oracle_for_eq) simp_all
    then show "\<exists>m inst. r = int m \<and> 1 \<le> m \<and> m < 2 ^ n
                  \<and> give_a_balanced_oracle (int n) pick = Inr inst
                  \<and> num_qubits inst = n + 1
                  \<and> data inst =
                      map XGate (filter (bit m) [0..<n])
                      @ map (\<lambda>i. CXGate i n) [0..<n]
                      @ map XGate (filter (bit m) [0..<n])"
      using d m
      by (intro exI[of _ m]) (simp add: give_a_balanced_oracle_def balanced_gates_def)
  }
  {
    assume n: "n \<le> 63"
    have "1 \<le> int n" "int n \<le> 63" using assms n by simp_all
    from two_to_the_within[OF this]
    have w: "1 < two_to_the (int n)" "two_to_the (int n) - 1 \<le> int64_max" by simp_all
    have lo: "int64_min \<le> 1" by (simp add: int64_min_def)
    from randint_range[OF w(1) lo w(2), of pick]
    show "\<exists>r. randint 1 (two_to_the (int n)) pick = Inr r" by blast
  }
qed

theorem balanced_oracle_gate_sequence_witness:
  "(1::nat) \<le> 2
   \<and> randint 1 (two_to_the (int 2)) 1 = Inr 2
   \<and> (\<exists>m inst. (2::int) = int m \<and> 1 \<le> m \<and> m < 2 ^ 2
        \<and> give_a_balanced_oracle (int 2) 1 = Inr inst
        \<and> data inst =
            map XGate (filter (bit m) [0..<2])
            @ map (\<lambda>i. CXGate i 2) [0..<2]
            @ map XGate (filter (bit m) [0..<2]))"
proof -
  have h: "(1::nat) \<le> 2" by simp
  have d: "randint 1 (two_to_the (int 2)) 1 = Inr 2"
    by (simp add: randint_def two_to_the_def int64_min_def int64_max_def)
  from balanced_oracle_gate_sequence[OF h, of 1] d show ?thesis using h by blast
qed

section \<open>The function the balanced oracle computes\<close>

text \<open>
  C10. For every \<open>n \<ge> 1\<close> and every mask \<open>m\<close> with \<open>1 \<le> m < 2 ^ n\<close> the synthesised
  oracle holds a controlled flip of the ancilla by every input wire, whatever the mask.
  Run on the inputs \<open>xs\<close> and the ancilla \<open>a\<close> it leaves the inputs as they were and
  adds to the ancilla the parity of \<open>xs\<close> xor the parity of the mask's ones: the function
  it computes is \<open>f xs = parity xs xor parity m\<close>. So two masks whose numbers of ones have
  the same parity give oracles that compute the same function.
\<close>

theorem balanced_oracle_function:
  assumes "1 \<le> n" and "1 \<le> m" and "m < 2 ^ n" and "length xs = n"
  shows "\<exists>inst. balanced_oracle_for (int n) (int m) = Inr inst
           \<and> (randint 1 (two_to_the (int n)) pick = Inr (int m)
                \<longrightarrow> give_a_balanced_oracle (int n) pick = Inr inst)
           \<and> (\<forall>i<n. CXGate i n \<in> set (data inst))
           \<and> run_classical (data inst) (xs @ [a])
                = Some (xs @ [a \<noteq> (odd_ones xs \<noteq> mask_parity n m)])
           \<and> oracle_function inst xs = Some (odd_ones xs \<noteq> mask_parity n m)
           \<and> (\<forall>m'. 1 \<le> m' \<and> m' < 2 ^ n \<and> mask_parity n m' = mask_parity n m
                \<longrightarrow> (\<exists>inst'. balanced_oracle_for (int n) (int m') = Inr inst'
                        \<and> oracle_function inst' xs = oracle_function inst xs))"
proof -
  let ?ob = "\<lambda>m. \<lparr>name = ''BalancedOracle'', num_qubits = Suc n, num_clbits = n,
                   data = balanced_gates n m\<rparr>"
  have ob: "balanced_oracle_for (int n) (int k) = Inr (?ob k)" if "k < 2 ^ n" for k
    using that assms(1) by (intro balanced_oracle_for_eq) simp_all
  have cx: "\<forall>i<n. CXGate i n \<in> set (data (?ob m))"
    by (simp add: balanced_gates_def)
  have run: "run_classical (data (?ob k)) (xs @ [b])
               = Some (xs @ [b \<noteq> (odd_ones xs \<noteq> mask_parity n k)])" for k b
    using run_classical_balanced[OF assms(4)] by simp
  have f: "oracle_function (?ob k) xs = Some (odd_ones xs \<noteq> mask_parity n k)" for k
    unfolding oracle_function_def run by simp
  have same: "\<exists>inst'. balanced_oracle_for (int n) (int m') = Inr inst'
                \<and> oracle_function inst' xs = oracle_function (?ob m) xs"
    if "m' < 2 ^ n" "mask_parity n m' = mask_parity n m" for m'
    using ob[OF that(1)] f[of m'] f[of m] that(2) by simp
  have g: "give_a_balanced_oracle (int n) pick = Inr (?ob m)"
    if "randint 1 (two_to_the (int n)) pick = Inr (int m)"
    using that ob[OF assms(3)] by (simp add: give_a_balanced_oracle_def)
  show ?thesis
    using ob[OF assms(3)] g cx run[of m a] f[of m] same
    by (intro exI[of _ "?ob m"]) blast
qed

theorem balanced_oracle_function_witness:
  "(1::nat) \<le> 2 \<and> (1::nat) \<le> 1 \<and> (1::nat) < 2 ^ 2 \<and> length [True, False] = 2
   \<and> (\<exists>inst. balanced_oracle_for (int 2) (int 1) = Inr inst
         \<and> CXGate 1 2 \<in> set (data inst)
         \<and> run_classical (data inst) ([True, False] @ [False]) = Some [True, False, False]
         \<and> oracle_function inst [True, False] = Some False)"
proof -
  have h: "(1::nat) \<le> 2" "(1::nat) \<le> 1" "(1::nat) < 2 ^ 2" "length [True, False] = 2"
    by simp_all
  have p: "odd_ones [True, False] = True" "mask_parity 2 1 = True"
    by code_simp+
  from balanced_oracle_function[OF h, of 0 False]
  obtain inst where i: "balanced_oracle_for (int 2) (int 1) = Inr inst"
    "\<forall>i<2. CXGate i 2 \<in> set (data inst)"
    "run_classical (data inst) ([True, False] @ [False])
       = Some ([True, False] @ [False \<noteq> (odd_ones [True, False] \<noteq> mask_parity 2 1)])"
    "oracle_function inst [True, False] = Some (odd_ones [True, False] \<noteq> mask_parity 2 1)"
    by blast
  have "CXGate 1 2 \<in> set (data inst)" using i(2) by simp
  with h i show ?thesis unfolding p by auto
qed

section \<open>The verdict of an ideal run\<close>

text \<open>
  C1. For every \<open>n \<ge> 1\<close> and either outcome of the synthesiser's coin, the constant
  oracle is built, the circuit is composed, and whatever counts an ideal backend reports
  for that circuit, \<^verbatim>\<open>simulate\<close> answers Constant. The outcomes other than the string
  of zeros have probability 0, so every key an ideal backend reports is that string; and
  such counts exist, since the string of zeros has a positive probability.
\<close>

theorem constant_oracle_verdict:
  assumes "1 \<le> n"
  shows "\<exists>oracle circuit.
           give_a_constant_oracle (int n) pick = Inr oracle
         \<and> construct_the_circuit oracle = Inr circuit
         \<and> (\<forall>backend. ideal_counts circuit (backend circuit)
               \<longrightarrow> simulate backend oracle = Inr [(''result'', ''Constant'')])
         \<and> ideal_counts circuit [(replicate n CHR ''0'', 1)]"
proof -
  let ?ob = "\<lparr>name = ''ConstantOracle'', num_qubits = Suc n, num_clbits = 0,
              data = (if odd pick then [XGate n] else [])\<rparr>"
  let ?c = "\<lparr>name = ''circuit'', num_qubits = Suc n, num_clbits = n,
             data = composed_data ?ob n\<rparr>"
  have o: "give_a_constant_oracle (int n) pick = Inr ?ob"
    using constant_oracle_eq[of "int n" pick] by simp
  have c: "construct_the_circuit ?ob = Inr ?c"
    by (rule construct_the_circuit_eq) simp_all
  have v: "simulate backend ?ob = Inr [(''result'', ''Constant'')]"
    if ideal: "ideal_counts ?c (backend ?c)" for backend
  proof -
    obtain key where key: "key \<in> set (map fst (backend ?c))"
      using ideal_counts_has_key[OF ideal] by blast
    with ideal have k: "length key = n"
      "list_all (\<lambda>ch. ch = CHR ''0'' \<or> ch = CHR ''1'') key"
      "0 < probability ?c (key_bits key)"
      using ideal_counts_key[of ?c "backend ?c" key] by simp_all
    have "\<not> key_bits key ! j" if "j < length key" for j
    proof
      assume "key_bits key ! j"
      with that k(1) have "probability ?c (key_bits key) = 0"
        by (intro constant_only_zeros) simp_all
      with k(3) show False by simp
    qed
    with k(2) have "key = replicate (length key) CHR ''0''"
      by (rule key_without_one)
    with key k(1) have "replicate n CHR ''0'' \<in> set (map fst (backend ?c))" by simp
    then have "classify (int n) (backend ?c) = [(''result'', ''Constant'')]"
      by (simp add: classify_def)
    moreover have "simulate backend ?ob = Inr (classify (int n) (backend ?c))"
      by (rule simulate_composed) simp_all
    ultimately show ?thesis by simp
  qed
  have p: "ideal_counts ?c [(replicate n CHR ''0'', 1)]"
    using constant_zeros_possible[of "''circuit''" n "''ConstantOracle''" pick 0] by simp
  from o c v p show ?thesis by blast
qed

theorem constant_oracle_verdict_witness:
  "(1::nat) \<le> 1
   \<and> (\<exists>oracle circuit.
         give_a_constant_oracle (int 1) 1 = Inr oracle
       \<and> construct_the_circuit oracle = Inr circuit
       \<and> ideal_counts circuit [(''0'', 1024)]
       \<and> simulate (\<lambda>c. [(''0'', 1024)]) oracle = Inr [(''result'', ''Constant'')])"
proof -
  have h: "(1::nat) \<le> 1" by simp
  from constant_oracle_verdict[OF h, of 1]
  obtain ob circ where
    gen: "give_a_constant_oracle (int 1) 1 = Inr ob"
    and con: "construct_the_circuit ob = Inr circ"
    and v: "\<forall>backend. ideal_counts circ (backend circ)
              \<longrightarrow> simulate backend ob = Inr [(''result'', ''Constant'')]"
    by blast
  have "give_a_constant_oracle (int 1) 1 =
          Inr \<lparr>name = ''ConstantOracle'', num_qubits = 2, num_clbits = 0, data = [XGate 1]\<rparr>"
    by code_simp
  with gen have oe: "ob =
       \<lparr>name = ''ConstantOracle'', num_qubits = 2, num_clbits = 0, data = [XGate 1]\<rparr>"
    by simp
  have "construct_the_circuit
          \<lparr>name = ''ConstantOracle'', num_qubits = 2, num_clbits = 0, data = [XGate 1]\<rparr> =
        Inr \<lparr>name = ''circuit'', num_qubits = 2, num_clbits = 1,
             data = [Gate (HGate 0), Gate (XGate 1), Gate (HGate 1), Gate (Barrier [0, 1]),
                     Block \<lparr>name = ''ConstantOracle'', num_qubits = 2, num_clbits = 0,
                            data = [XGate 1]\<rparr> [0, 1] [],
                     Gate (Barrier [0, 1]), Gate (HGate 0), Gate (Barrier [0, 1]),
                     Gate (Measure 0 0)]\<rparr>"
    by code_simp
  with con oe have ce: "circ =
        \<lparr>name = ''circuit'', num_qubits = 2, num_clbits = 1,
             data = [Gate (HGate 0), Gate (XGate 1), Gate (HGate 1), Gate (Barrier [0, 1]),
                     Block \<lparr>name = ''ConstantOracle'', num_qubits = 2, num_clbits = 0,
                            data = [XGate 1]\<rparr> [0, 1] [],
                     Gate (Barrier [0, 1]), Gate (HGate 0), Gate (Barrier [0, 1]),
                     Gate (Measure 0 0)]\<rparr>"
    by simp
  have i: "ideal_counts circ [(''0'', 1024)]"
    unfolding ce by code_simp
  from v[rule_format, of "\<lambda>c. [(''0'', 1024)]"] i
  have "simulate (\<lambda>c. [(''0'', 1024)]) ob = Inr [(''result'', ''Constant'')]"
    by simp
  with h gen con i show ?thesis by blast
qed

text \<open>
  C2. For every \<open>n \<ge> 1\<close> and every mask the synthesiser draws, and so for every one of
  the \<open>2 ^ n - 1\<close> masks \<open>1 \<le> m < 2 ^ n\<close>, the balanced oracle is built, the circuit is
  composed, and whatever counts an ideal backend reports for that circuit,
  \<^verbatim>\<open>simulate\<close> answers Balanced: the string of zeros has probability 0 and is never
  among the keys. Such counts exist, since the string of ones has a positive probability.
  A mask is drawn for every \<open>n\<close> up to 63.
\<close>

theorem balanced_oracle_verdict:
  assumes "1 \<le> n"
  shows "(\<forall>r. randint 1 (two_to_the (int n)) pick = Inr r
            \<longrightarrow> (\<exists>oracle circuit.
                    give_a_balanced_oracle (int n) pick = Inr oracle
                  \<and> construct_the_circuit oracle = Inr circuit
                  \<and> (\<forall>backend. ideal_counts circuit (backend circuit)
                        \<longrightarrow> simulate backend oracle = Inr [(''result'', ''Balanced'')])
                  \<and> ideal_counts circuit [(replicate n CHR ''1'', 1)]))
       \<and> (n \<le> 63 \<longrightarrow> (\<exists>r. randint 1 (two_to_the (int n)) pick = Inr r))
       \<and> (\<forall>m. 1 \<le> m \<and> m < 2 ^ n
            \<longrightarrow> (\<exists>oracle circuit.
                    balanced_oracle_for (int n) (int m) = Inr oracle
                  \<and> construct_the_circuit oracle = Inr circuit
                  \<and> (\<forall>backend. ideal_counts circuit (backend circuit)
                        \<longrightarrow> simulate backend oracle = Inr [(''result'', ''Balanced'')])
                  \<and> ideal_counts circuit [(replicate n CHR ''1'', 1)]))"
proof (intro conjI allI impI)
  have n: "0 < n" using assms by simp
  have t: "two_to_the (int n) = 2 ^ n" by (simp add: two_to_the_def)
  {
    fix r assume d: "randint 1 (two_to_the (int n)) pick = Inr r"
    from randint_result[OF d] have r: "1 \<le> r" "r < 2 ^ n" by (simp_all add: t)
    define m where "m = nat r"
    have m: "r = int m" "m < 2 ^ n"
      using r by (simp_all add: m_def nat_less_iff)
    have "give_a_balanced_oracle (int n) pick = balanced_oracle_for (int n) (int m)"
      using d m by (simp add: give_a_balanced_oracle_def)
    then show "\<exists>oracle circuit.
                    give_a_balanced_oracle (int n) pick = Inr oracle
                  \<and> construct_the_circuit oracle = Inr circuit
                  \<and> (\<forall>backend. ideal_counts circuit (backend circuit)
                        \<longrightarrow> simulate backend oracle = Inr [(''result'', ''Balanced'')])
                  \<and> ideal_counts circuit [(replicate n CHR ''1'', 1)]"
      using balanced_verdict_for_mask[OF n m(2)] by simp
  }
  {
    assume n63: "n \<le> 63"
    have "1 \<le> int n" "int n \<le> 63" using assms n63 by simp_all
    from two_to_the_within[OF this]
    have w: "1 < two_to_the (int n)" "two_to_the (int n) - 1 \<le> int64_max" by simp_all
    have lo: "int64_min \<le> 1" by (simp add: int64_min_def)
    from randint_range[OF w(1) lo w(2), of pick]
    show "\<exists>r. randint 1 (two_to_the (int n)) pick = Inr r" by blast
  }
  {
    fix m :: nat assume "1 \<le> m \<and> m < 2 ^ n"
    then have "m < 2 ^ n" by simp
    from balanced_verdict_for_mask[OF n this]
    show "\<exists>oracle circuit.
                    balanced_oracle_for (int n) (int m) = Inr oracle
                  \<and> construct_the_circuit oracle = Inr circuit
                  \<and> (\<forall>backend. ideal_counts circuit (backend circuit)
                        \<longrightarrow> simulate backend oracle = Inr [(''result'', ''Balanced'')])
                  \<and> ideal_counts circuit [(replicate n CHR ''1'', 1)]" .
  }
qed

theorem balanced_oracle_verdict_witness:
  "(1::nat) \<le> 2
   \<and> randint 1 (two_to_the (int 2)) 1 = Inr 2
   \<and> (\<exists>oracle circuit.
         give_a_balanced_oracle (int 2) 1 = Inr oracle
       \<and> construct_the_circuit oracle = Inr circuit
       \<and> ideal_counts circuit [(''11'', 1024)]
       \<and> simulate (\<lambda>c. [(''11'', 1024)]) oracle = Inr [(''result'', ''Balanced'')])"
proof -
  have h: "(1::nat) \<le> 2" by simp
  have d: "randint 1 (two_to_the (int 2)) 1 = Inr 2"
    by (simp add: randint_def two_to_the_def int64_min_def int64_max_def)
  from balanced_oracle_verdict[OF h, of 1] d
  obtain ob circ where
    gen: "give_a_balanced_oracle (int 2) 1 = Inr ob"
    and con: "construct_the_circuit ob = Inr circ"
    and v: "\<forall>backend. ideal_counts circ (backend circ)
              \<longrightarrow> simulate backend ob = Inr [(''result'', ''Balanced'')]"
    by blast
  have "give_a_balanced_oracle (int 2) 1 =
          Inr \<lparr>name = ''BalancedOracle'', num_qubits = 3, num_clbits = 2,
               data = [XGate 1, CXGate 0 2, CXGate 1 2, XGate 1]\<rparr>"
    by code_simp
  with gen have oe: "ob =
       \<lparr>name = ''BalancedOracle'', num_qubits = 3, num_clbits = 2,
        data = [XGate 1, CXGate 0 2, CXGate 1 2, XGate 1]\<rparr>"
    by simp
  have "construct_the_circuit
          \<lparr>name = ''BalancedOracle'', num_qubits = 3, num_clbits = 2,
           data = [XGate 1, CXGate 0 2, CXGate 1 2, XGate 1]\<rparr> =
        Inr \<lparr>name = ''circuit'', num_qubits = 3, num_clbits = 2,
             data = [Gate (HGate 0), Gate (HGate 1), Gate (XGate 2), Gate (HGate 2),
                     Gate (Barrier [0, 1, 2]),
                     Block \<lparr>name = ''BalancedOracle'', num_qubits = 3, num_clbits = 2,
                            data = [XGate 1, CXGate 0 2, CXGate 1 2, XGate 1]\<rparr>
                       [0, 1, 2] [0, 1],
                     Gate (Barrier [0, 1, 2]), Gate (HGate 0), Gate (HGate 1),
                     Gate (Barrier [0, 1, 2]),
                     Gate (Measure 0 0), Gate (Measure 1 1)]\<rparr>"
    by code_simp
  with con oe have ce: "circ =
        \<lparr>name = ''circuit'', num_qubits = 3, num_clbits = 2,
             data = [Gate (HGate 0), Gate (HGate 1), Gate (XGate 2), Gate (HGate 2),
                     Gate (Barrier [0, 1, 2]),
                     Block \<lparr>name = ''BalancedOracle'', num_qubits = 3, num_clbits = 2,
                            data = [XGate 1, CXGate 0 2, CXGate 1 2, XGate 1]\<rparr>
                       [0, 1, 2] [0, 1],
                     Gate (Barrier [0, 1, 2]), Gate (HGate 0), Gate (HGate 1),
                     Gate (Barrier [0, 1, 2]),
                     Gate (Measure 0 0), Gate (Measure 1 1)]\<rparr>"
    by simp
  have i: "ideal_counts circ [(''11'', 1024)]"
    unfolding ce by code_simp
  from v[rule_format, of "\<lambda>c. [(''11'', 1024)]"] i
  have "simulate (\<lambda>c. [(''11'', 1024)]) ob = Inr [(''result'', ''Balanced'')]"
    by simp
  with h d gen con i show ?thesis by blast
qed

end
